theory Spec2Isabelle
  imports Main "HOL-Library.Sublist"
begin

section \<open>Strings of the Go program\<close>

text \<open>
  A Go string is a sequence of bytes, and so is a HOL \<open>string\<close>. The functions below are
  the ones of Go's packages \<open>strings\<close>, \<open>unicode\<close> and \<open>unicode/utf8\<close> that the program
  reaches, with the names they have there.
\<close>

subsection \<open>Lower case\<close>

text \<open>
  \<open>strings.ToLower\<close> has two paths. A string without a byte above 127 is lowered byte by
  byte: the letters \<open>A\<close> to \<open>Z\<close> move to \<open>a\<close> to \<open>z\<close> and every other byte stays. Any
  other string goes through \<open>strings.Map\<close> with \<open>unicode.ToLower\<close>: the string is
  decoded into code points as UTF-8, a byte that starts no well-formed sequence counting
  as the code point \<open>U+FFFD\<close> of width one, each code point is mapped, and the results are
  encoded again.
\<close>

definition lower_byte :: "char \<Rightarrow> char" where
  "lower_byte c =
     (let n = (of_char c :: nat) in if 65 \<le> n \<and> n \<le> 90 then char_of (n + 32) else c)"

definition RuneError :: nat where
  "RuneError = 0xFFFD"

text \<open>
  \<open>utf8.DecodeRuneInString\<close>: the code point at the head of the string and its width.
  The lead byte fixes the length of the sequence and the range of its second byte (the
  ranges exclude over-long forms, surrogates and code points beyond \<open>U+10FFFF\<close>); the
  further bytes are continuation bytes, \<open>0x80\<close> to \<open>0xBF\<close>.
\<close>

definition rune_size :: "nat \<Rightarrow> nat" where
  "rune_size s0 = (if s0 < 0xE0 then 2 else if s0 < 0xF0 then 3 else 4)"

definition accept_lo :: "nat \<Rightarrow> nat" where
  "accept_lo s0 = (if s0 = 0xE0 then 0xA0 else if s0 = 0xF0 then 0x90 else 0x80)"

definition accept_hi :: "nat \<Rightarrow> nat" where
  "accept_hi s0 = (if s0 = 0xED then 0x9F else if s0 = 0xF4 then 0x8F else 0xBF)"

definition byte_at :: "string \<Rightarrow> nat \<Rightarrow> nat" where
  "byte_at s i = of_char (s ! i)"

definition DecodeRuneInString :: "string \<Rightarrow> nat \<times> nat" where
  "DecodeRuneInString s =
     (if length s < 1 then (RuneError, 0)
      else let s0 = byte_at s 0 in
      if s0 < 0x80 then (s0, 1)
      else if s0 < 0xC2 \<or> 0xF4 < s0 then (RuneError, 1)
      else let sz = rune_size s0 in
      if length s < sz then (RuneError, 1)
      else let s1 = byte_at s 1 in
      if s1 < accept_lo s0 \<or> accept_hi s0 < s1 then (RuneError, 1)
      else if sz \<le> 2 then ((s0 mod 32) * 64 + s1 mod 64, 2)
      else let s2 = byte_at s 2 in
      if s2 < 0x80 \<or> 0xBF < s2 then (RuneError, 1)
      else if sz \<le> 3 then ((s0 mod 16) * 4096 + (s1 mod 64) * 64 + s2 mod 64, 3)
      else let s3 = byte_at s 3 in
      if s3 < 0x80 \<or> 0xBF < s3 then (RuneError, 1)
      else ((s0 mod 8) * 262144 + (s1 mod 64) * 4096 + (s2 mod 64) * 64 + s3 mod 64, 4))"

text \<open>\<open>utf8.AppendRune\<close>: the UTF-8 bytes of a code point; a surrogate or a value beyond
  \<open>U+10FFFF\<close> is written as \<open>U+FFFD\<close>.\<close>

definition AppendRune :: "nat \<Rightarrow> string" where
  "AppendRune r =
     (if r \<le> 0x7F then [char_of r]
      else if r \<le> 0x7FF then [char_of (0xC0 + r div 64), char_of (0x80 + r mod 64)]
      else if 0x10FFFF < r \<or> (0xD800 \<le> r \<and> r \<le> 0xDFFF) then
        [char_of (0xEF :: nat), char_of (0xBF :: nat), char_of (0xBD :: nat)]
      else if r \<le> 0xFFFF then
        [char_of (0xE0 + r div 4096), char_of (0x80 + (r div 64) mod 64),
         char_of (0x80 + r mod 64)]
      else
        [char_of (0xF0 + r div 262144), char_of (0x80 + (r div 4096) mod 64),
         char_of (0x80 + (r div 64) mod 64), char_of (0x80 + r mod 64)])"

text \<open>
  \<open>strings.Map\<close> for a mapping that returns no negative value, as \<open>unicode.ToLower\<close>
  does: code point by code point. (The library copies a well-formed sequence whose code
  point the mapping leaves alone; those bytes are the encoding of the code point.)
\<close>

function Map_str :: "(nat \<Rightarrow> nat) \<Rightarrow> string \<Rightarrow> string" where
  "Map_str mapping s =
     (if s = [] then []
      else (case DecodeRuneInString s of
              (c, width) \<Rightarrow> AppendRune (mapping c) @ Map_str mapping (drop width s)))"
  by pat_completeness auto
termination
  by (relation "measure (\<lambda>(mapping, s). length s)")
     (auto simp add: DecodeRuneInString_def Let_def split: if_splits)

text \<open>
  \<open>unicode.ToLower\<close> treats the code points up to 127 itself and looks every other one
  up in the case tables of the Unicode standard. The tables are not part of the
  repository: the lookup is the parameter \<open>tbl\<close> of the model, from a code point above 127
  to its lower case, and every function that lowers text takes it as its first argument.
\<close>

type_synonym case_table = "nat \<Rightarrow> nat"

definition unicode_ToLower :: "case_table \<Rightarrow> nat \<Rightarrow> nat" where
  "unicode_ToLower tbl r =
     (if r \<le> 0x7F then (if 65 \<le> r \<and> r \<le> 90 then r + 32 else r) else tbl r)"

definition ToLower :: "case_table \<Rightarrow> string \<Rightarrow> string" where
  "ToLower tbl s =
     (let isASCII = list_all (\<lambda>c. (of_char c :: nat) < 0x80) s;
          hasUpper = list_ex (\<lambda>c. 65 \<le> (of_char c :: nat) \<and> (of_char c :: nat) \<le> 90) s
      in if isASCII then (if \<not> hasUpper then s else map lower_byte s)
         else Map_str (unicode_ToLower tbl) s)"

subsection \<open>Prefixes, trimming, searching, splitting\<close>

definition HasPrefix :: "string \<Rightarrow> string \<Rightarrow> bool" where
  "HasPrefix s p = (length p \<le> length s \<and> take (length p) s = p)"

definition TrimPrefix :: "string \<Rightarrow> string \<Rightarrow> string" where
  "TrimPrefix s p = (if HasPrefix s p then drop (length p) s else s)"

text \<open>\<open>Trim s cutset\<close> removes every leading and every trailing byte that is in the cutset
  (a cutset of ASCII bytes, as the program's is).\<close>

definition Trim :: "string \<Rightarrow> string \<Rightarrow> string" where
  "Trim s cutset =
     rev (dropWhile (\<lambda>c. c \<in> set cutset) (rev (dropWhile (\<lambda>c. c \<in> set cutset) s)))"

fun Contains :: "string \<Rightarrow> string \<Rightarrow> bool" where
  "Contains [] sub = (sub = [])"
| "Contains (c # cs) sub = (HasPrefix (c # cs) sub \<or> Contains cs sub)"

text \<open>
  \<open>Split s sep\<close> for a separator of one byte, the only use the program makes of it
  (\<open>"\n"\<close>): the pieces between the separators, in order, so that a string without the
  separator (the empty string too) gives one piece. The result is never empty, so the
  first case of the inner distinction does not arise.
\<close>

fun Split :: "string \<Rightarrow> char \<Rightarrow> string list" where
  "Split [] sep = [[]]"
| "Split (c # cs) sep =
     (if c = sep then [] # Split cs sep
      else (case Split cs sep of [] \<Rightarrow> [[c]] | piece # pieces \<Rightarrow> (c # piece) # pieces))"

definition newline :: char where
  "newline = CHR 0x0A"

definition dquote :: string where
  "dquote = [CHR 0x22]"

section \<open>The classifier of \<open>discovery.go\<close>\<close>

text \<open>
  The \<open>switch\<close> of \<open>parseOsRelease\<close> on the value of the identity line: the cases in the
  order of the source, the first true one returns.
\<close>

definition base_type_of_value :: "string \<Rightarrow> string" where
  "base_type_of_value v =
     (if Contains v ''debian'' then ''Debian''
      else if Contains v ''alpine'' then ''Alpine''
      else if Contains v ''centos'' \<or> Contains v ''rhel'' \<or> Contains v ''ubi'' then ''RHEL''
      else if Contains v ''wolfi'' then ''Chainguard''
      else ''Other'')"

text \<open>The body of the \<open>for\<close> loop over the lines: the first identity line returns.\<close>

fun parseOsRelease_lines :: "case_table \<Rightarrow> string list \<Rightarrow> string" where
  "parseOsRelease_lines tbl [] = ''Unknown''"
| "parseOsRelease_lines tbl (line # rest) =
     (let lowerLine = ToLower tbl line in
      if HasPrefix lowerLine ''id='' \<or> HasPrefix lowerLine ''name='' then
        (let v0 = TrimPrefix lowerLine ''id='';
             v1 = TrimPrefix v0 ''name='';
             v = Trim v1 dquote
         in base_type_of_value v)
      else parseOsRelease_lines tbl rest)"

definition parseOsRelease :: "case_table \<Rightarrow> string \<Rightarrow> string" where
  "parseOsRelease tbl content = parseOsRelease_lines tbl (Split content newline)"

definition isFipsFromImageName :: "case_table \<Rightarrow> string \<Rightarrow> bool" where
  "isFipsFromImageName tbl img =
     (let lowerImage = ToLower tbl img in
      list_ex (\<lambda>indicator. Contains lowerImage indicator)
        [''fips'', ''ubi8-fips'', ''debian:fips'', ''chainguard:fips''])"

definition isFipsCompliant :: "case_table \<Rightarrow> string \<Rightarrow> string \<Rightarrow> bool" where
  "isFipsCompliant tbl osRelease img =
     (let lowerOsRelease = ToLower tbl osRelease in
      if Contains lowerOsRelease ''fips_mode=yes'' \<or> Contains lowerOsRelease ''fips=1''
      then True
      else isFipsFromImageName tbl img)"

section \<open>The classifier of the second program variant\<close>

text \<open>
  The repository holds a second revision of the program, whose functions are methods of
  a \<open>Client\<close> and which publishes no compliance gauge. Its \<open>parseOsRelease\<close> looks at
  \<open>id=\<close> lines only and compares the whole value; names of that revision carry the
  suffix \<open>_v2\<close> here.
\<close>

definition base_type_of_id_v2 :: "string \<Rightarrow> string" where
  "base_type_of_id_v2 ident =
     (if ident = ''debian'' then ''debian''
      else if ident = ''ubuntu'' then ''ubuntu''
      else if ident = ''alpine'' then ''alpine''
      else if ident = ''centos'' \<or> ident = ''rhel'' \<or> ident = ''fedora'' then ident
      else ''other'')"

fun parseOsRelease_lines_v2 :: "case_table \<Rightarrow> string list \<Rightarrow> string" where
  "parseOsRelease_lines_v2 tbl [] = ''unknown''"
| "parseOsRelease_lines_v2 tbl (line # rest) =
     (let lowerLine = ToLower tbl line in
      if HasPrefix lowerLine ''id='' then
        base_type_of_id_v2 (Trim (TrimPrefix lowerLine ''id='') dquote)
      else parseOsRelease_lines_v2 tbl rest)"

definition parseOsRelease_v2 :: "case_table \<Rightarrow> string \<Rightarrow> string" where
  "parseOsRelease_v2 tbl content = parseOsRelease_lines_v2 tbl (Split content newline)"

section \<open>Workloads and remote inspection\<close>

record Container =
  container_Name :: string
  container_Image :: string

record Pod =
  pod_Namespace :: string
  pod_Name :: string
  pod_Containers :: "Container list"

text \<open>
  What the exec request for \<open>cat /etc/os-release\<close> in a container comes to: the
  executor cannot be created, the stream ends with an error, or the stream ends without
  one and has written the standard output. The cluster is a function from namespace, pod
  name and container name to that outcome. (The request takes its options through
  \<open>metav1.ParameterCodec\<close>; \<open>getContainerDetails\<close> uses the URL of the request alone,
  which does not report an encoding error, and what the server makes of that URL is part
  of the outcome.)
\<close>

datatype exec_outcome = ExecutorError | StreamError | Stdout string

type_synonym cluster = "string \<Rightarrow> string \<Rightarrow> string \<Rightarrow> exec_outcome"

definition getContainerDetails :: "case_table \<Rightarrow> cluster \<Rightarrow> Pod \<Rightarrow> Container \<Rightarrow> string \<times> bool" where
  "getContainerDetails tbl cl pod container =
     (case cl (pod_Namespace pod) (pod_Name pod) (container_Name container) of
        ExecutorError \<Rightarrow> (''Unknown'', False)
      | StreamError \<Rightarrow> (''Unknown'', isFipsFromImageName tbl (container_Image container))
      | Stdout osRelease \<Rightarrow>
          (parseOsRelease tbl osRelease, isFipsCompliant tbl osRelease (container_Image container)))"

text \<open>
  The second variant builds its request with
  \<open>VersionedParams(&corev1.PodExecOptions{...}, metav1.ParameterCodec)\<close> and calls
  \<open>Stream\<close> on it. That codec knows the option types of \<open>meta/v1\<close> only and cannot encode
  the exec options; the request keeps the encoding error, and \<open>Stream\<close> returns it before
  anything is sent, whatever the cluster would answer.
\<close>

datatype stream_outcome = StreamFailed | ReadFailed | Output string

definition Stream_v2 :: "cluster \<Rightarrow> string \<Rightarrow> string \<Rightarrow> string \<Rightarrow> stream_outcome" where
  "Stream_v2 cl namespace podName containerName = StreamFailed"

definition getBaseImageType_v2 ::
  "case_table \<Rightarrow> cluster \<Rightarrow> string \<Rightarrow> string \<Rightarrow> string \<Rightarrow> string" where
  "getBaseImageType_v2 tbl cl namespace podName containerName =
     (case Stream_v2 cl namespace podName containerName of
        StreamFailed \<Rightarrow> ''unknown''
      | ReadFailed \<Rightarrow> ''unknown''
      | Output output \<Rightarrow> parseOsRelease_v2 tbl output)"

section \<open>Aggregation\<close>

text \<open>
  The count tables are Go maps from string to \<open>float64\<close>, filled by \<open>m[k]++\<close> from
  zero, so every value is a whole number. A \<open>float64\<close> holds the whole numbers up to
  \<open>2^53\<close> exactly, and \<open>2^53 + 1\<close> rounds back to \<open>2^53\<close>: the increment is the
  successor below that bound and the identity at it. A key that is absent reads as zero.
\<close>

type_synonym count_map = "string \<rightharpoonup> nat"

definition f64_inc :: "nat \<Rightarrow> nat" where
  "f64_inc x = (if x < 2 ^ 53 then x + 1 else x)"

definition lookup0 :: "count_map \<Rightarrow> string \<Rightarrow> nat" where
  "lookup0 m k = (case m k of None \<Rightarrow> 0 | Some v \<Rightarrow> v)"

definition incr :: "count_map \<Rightarrow> string \<Rightarrow> count_map" where
  "incr m k = m(k \<mapsto> f64_inc (lookup0 m k))"

record snapshot =
  namespaceMap :: count_map
  imageMap :: count_map
  baseTypeMap :: count_map
  fipsCount :: nat

definition empty_snapshot :: snapshot where
  "empty_snapshot =
     \<lparr>namespaceMap = Map.empty, imageMap = Map.empty, baseTypeMap = Map.empty, fipsCount = 0\<rparr>"

definition container_step :: "case_table \<Rightarrow> cluster \<Rightarrow> Pod \<Rightarrow> Container \<Rightarrow> snapshot \<Rightarrow> snapshot" where
  "container_step tbl cl pod container s =
     (case getContainerDetails tbl cl pod container of
        (baseType, isFips) \<Rightarrow>
          s\<lparr>imageMap := incr (imageMap s) (container_Image container),
            baseTypeMap := incr (baseTypeMap s) baseType,
            fipsCount := (if isFips then f64_inc (fipsCount s) else fipsCount s)\<rparr>)"

definition pod_step :: "case_table \<Rightarrow> cluster \<Rightarrow> Pod \<Rightarrow> snapshot \<Rightarrow> snapshot" where
  "pod_step tbl cl pod s =
     fold (container_step tbl cl pod) (pod_Containers pod)
       (s\<lparr>namespaceMap := incr (namespaceMap s) (pod_Namespace pod)\<rparr>)"

definition aggregate :: "case_table \<Rightarrow> cluster \<Rightarrow> Pod list \<Rightarrow> snapshot" where
  "aggregate tbl cl pods = fold (pod_step tbl cl) pods empty_snapshot"

definition container_step_v2 :: "case_table \<Rightarrow> cluster \<Rightarrow> Pod \<Rightarrow> Container \<Rightarrow> snapshot \<Rightarrow> snapshot" where
  "container_step_v2 tbl cl pod container s =
     s\<lparr>imageMap := incr (imageMap s) (container_Image container),
       baseTypeMap := incr (baseTypeMap s)
         (getBaseImageType_v2 tbl cl (pod_Namespace pod) (pod_Name pod) (container_Name container))\<rparr>"

definition pod_step_v2 :: "case_table \<Rightarrow> cluster \<Rightarrow> Pod \<Rightarrow> snapshot \<Rightarrow> snapshot" where
  "pod_step_v2 tbl cl pod s =
     fold (container_step_v2 tbl cl pod) (pod_Containers pod)
       (s\<lparr>namespaceMap := incr (namespaceMap s) (pod_Namespace pod)\<rparr>)"

definition aggregate_v2 :: "case_table \<Rightarrow> cluster \<Rightarrow> Pod list \<Rightarrow> snapshot" where
  "aggregate_v2 tbl cl pods = fold (pod_step_v2 tbl cl) pods empty_snapshot"

section \<open>Publication\<close>

text \<open>
  The published state is the three gauge vectors (label to value) and the scalar gauge.
  A cycle acts on it through calls of the metrics library only, which are kept as a list
  of operations: \<open>Reset\<close> deletes every label of a vector, \<open>WithLabelValues(l).Set(v)\<close>
  creates or overwrites one label, \<open>Set\<close> overwrites the scalar.
\<close>

record gauges =
  podsPerNamespace :: count_map
  containerImageCount :: count_map
  containerBaseImageType :: count_map
  containersFipsCompliant :: nat

datatype sink_op =
    ResetPodsPerNamespace
  | ResetContainerImageCount
  | ResetContainerBaseImageType
  | SetPodsPerNamespace string nat
  | SetContainerImageCount string nat
  | SetContainerBaseImageType string nat
  | SetContainersFipsCompliant nat

fun apply_op :: "sink_op \<Rightarrow> gauges \<Rightarrow> gauges" where
  "apply_op ResetPodsPerNamespace g = g\<lparr>podsPerNamespace := Map.empty\<rparr>"
| "apply_op ResetContainerImageCount g = g\<lparr>containerImageCount := Map.empty\<rparr>"
| "apply_op ResetContainerBaseImageType g = g\<lparr>containerBaseImageType := Map.empty\<rparr>"
| "apply_op (SetPodsPerNamespace l v) g = g\<lparr>podsPerNamespace := (podsPerNamespace g)(l \<mapsto> v)\<rparr>"
| "apply_op (SetContainerImageCount l v) g =
     g\<lparr>containerImageCount := (containerImageCount g)(l \<mapsto> v)\<rparr>"
| "apply_op (SetContainerBaseImageType l v) g =
     g\<lparr>containerBaseImageType := (containerBaseImageType g)(l \<mapsto> v)\<rparr>"
| "apply_op (SetContainersFipsCompliant v) g = g\<lparr>containersFipsCompliant := v\<rparr>"

definition run_ops :: "sink_op list \<Rightarrow> gauges \<Rightarrow> gauges" where
  "run_ops ops g = fold apply_op ops g"

text \<open>
  \<open>for k, v := range m\<close> visits every entry of the map once, in an order the Go runtime
  chooses. The order is a parameter of the model: the keys as the runtime hands them out,
  one list for each of the three loops. \<open>range_of m ks\<close> says that \<open>ks\<close> is such an
  order for \<open>m\<close>.
\<close>

record range_order =
  nsKeys :: "string list"
  imgKeys :: "string list"
  baseTypeKeys :: "string list"

definition range_of :: "count_map \<Rightarrow> string list \<Rightarrow> bool" where
  "range_of m ks = (distinct ks \<and> set ks = dom m)"

definition range_entries :: "count_map \<Rightarrow> string list \<Rightarrow> (string \<times> nat) list" where
  "range_entries m ks = List.map_filter (\<lambda>k. map_option (Pair k) (m k)) ks"

definition valid_order :: "snapshot \<Rightarrow> range_order \<Rightarrow> bool" where
  "valid_order s ord =
     (range_of (namespaceMap s) (nsKeys ord) \<and>
      range_of (imageMap s) (imgKeys ord) \<and>
      range_of (baseTypeMap s) (baseTypeKeys ord))"

datatype error = Error string

definition updateMetrics_ops :: "case_table \<Rightarrow> error + Pod list \<Rightarrow> cluster \<Rightarrow> range_order \<Rightarrow> sink_op list" where
  "updateMetrics_ops tbl listing cl ord =
     (case listing of
        Inl err \<Rightarrow> []
      | Inr pods \<Rightarrow>
          (let s = aggregate tbl cl pods in
           [ResetPodsPerNamespace, ResetContainerImageCount, ResetContainerBaseImageType,
            SetContainersFipsCompliant 0]
           @ map (\<lambda>(ns, count). SetPodsPerNamespace ns count)
               (range_entries (namespaceMap s) (nsKeys ord))
           @ map (\<lambda>(img, count). SetContainerImageCount img count)
               (range_entries (imageMap s) (imgKeys ord))
           @ map (\<lambda>(baseType, count). SetContainerBaseImageType baseType count)
               (range_entries (baseTypeMap s) (baseTypeKeys ord))
           @ [SetContainersFipsCompliant (fipsCount s)]))"

definition updateMetrics :: "case_table \<Rightarrow> error + Pod list \<Rightarrow> cluster \<Rightarrow> range_order \<Rightarrow> gauges \<Rightarrow> gauges" where
  "updateMetrics tbl listing cl ord g = run_ops (updateMetrics_ops tbl listing cl ord) g"

definition updateMetrics_ops_v2 :: "case_table \<Rightarrow> error + Pod list \<Rightarrow> cluster \<Rightarrow> range_order \<Rightarrow> sink_op list" where
  "updateMetrics_ops_v2 tbl listing cl ord =
     (case listing of
        Inl err \<Rightarrow> []
      | Inr pods \<Rightarrow>
          (let s = aggregate_v2 tbl cl pods in
           [ResetPodsPerNamespace, ResetContainerImageCount, ResetContainerBaseImageType]
           @ map (\<lambda>(ns, count). SetPodsPerNamespace ns count)
               (range_entries (namespaceMap s) (nsKeys ord))
           @ map (\<lambda>(img, count). SetContainerImageCount img count)
               (range_entries (imageMap s) (imgKeys ord))
           @ map (\<lambda>(baseType, count). SetContainerBaseImageType baseType count)
               (range_entries (baseTypeMap s) (baseTypeKeys ord))))"

definition updateMetrics_v2 :: "case_table \<Rightarrow> error + Pod list \<Rightarrow> cluster \<Rightarrow> range_order \<Rightarrow> gauges \<Rightarrow> gauges" where
  "updateMetrics_v2 tbl listing cl ord g = run_ops (updateMetrics_ops_v2 tbl listing cl ord) g"

section \<open>Notions of the specification\<close>

text \<open>
  The definitions of this section follow the words of the specification, not the code;
  the theorems compare them with the functions above.
\<close>

subsection \<open>Letter case\<close>

definition upper_byte :: "char \<Rightarrow> char" where
  "upper_byte c =
     (let n = (of_char c :: nat) in if 97 \<le> n \<and> n \<le> 122 then char_of (n - 32) else c)"

text \<open>Two bytes that are equal or the two cases of one of the letters \<open>A\<close> to \<open>Z\<close>; two
  strings that differ only in the case of such letters.\<close>

definition case_variant :: "char \<Rightarrow> char \<Rightarrow> bool" where
  "case_variant x y = (x = y \<or> y = lower_byte x \<or> y = upper_byte x)"

definition differs_only_in_case :: "string \<Rightarrow> string \<Rightarrow> bool" where
  "differs_only_in_case a b = list_all2 case_variant a b"

text \<open>A token occurs in a text case-insensitively when it occurs in the lower-cased
  text, the lower case being the one of the program.\<close>

definition contains_ci :: "case_table \<Rightarrow> string \<Rightarrow> string \<Rightarrow> bool" where
  "contains_ci tbl s token = Contains (ToLower tbl s) token"



subsection \<open>Compliance marker\<close>

definition has_compliance_marker :: "case_table \<Rightarrow> string \<Rightarrow> bool" where
  "has_compliance_marker tbl content =
     list_ex (contains_ci tbl content) [''fips_mode=yes'', ''fips=1'']"

subsection \<open>Identity line, value and substring rules\<close>

definition key_of :: "string \<Rightarrow> string option" where
  "key_of line =
     (if CHR ''='' \<in> set line then Some (takeWhile (\<lambda>c. c \<noteq> CHR ''='') line) else None)"

definition value_of :: "string \<Rightarrow> string" where
  "value_of line = drop 1 (dropWhile (\<lambda>c. c \<noteq> CHR ''='') line)"

definition is_identity_line :: "case_table \<Rightarrow> string list \<Rightarrow> string \<Rightarrow> bool" where
  "is_identity_line tbl idents line =
     (case key_of line of None \<Rightarrow> False | Some k \<Rightarrow> ToLower tbl k \<in> set idents)"

definition strip_quotes :: "string \<Rightarrow> string" where
  "strip_quotes v = Trim v dquote"

definition distribution_rules :: "(string list \<times> string) list" where
  "distribution_rules =
     [([''debian''], ''Debian''),
      ([''alpine''], ''Alpine''),
      ([''centos'', ''rhel'', ''ubi''], ''RHEL''),
      ([''wolfi''], ''Chainguard'')]"

definition first_match :: "case_table \<Rightarrow> (string list \<times> string) list \<Rightarrow> string \<Rightarrow> string" where
  "first_match tbl rules v =
     (case find (\<lambda>(tokens, tag). list_ex (contains_ci tbl v) tokens) rules of
        None \<Rightarrow> ''Other''
      | Some (tokens, tag) \<Rightarrow> tag)"

definition spec_base_type :: "case_table \<Rightarrow> string \<Rightarrow> string" where
  "spec_base_type tbl content =
     (case find (is_identity_line tbl [''id'', ''name'']) (Split content newline) of
        None \<Rightarrow> ''Unknown''
      | Some line \<Rightarrow> first_match tbl distribution_rules (strip_quotes (value_of line)))"

text \<open>The second variant in the same words: the identity field is \<open>id\<close> alone, and the
  value, lower-cased and without its quotes, is one of six names, which is returned, or
  else \<open>other\<close>.\<close>

definition spec_base_type_v2 :: "case_table \<Rightarrow> string \<Rightarrow> string" where
  "spec_base_type_v2 tbl content =
     (case find (is_identity_line tbl [''id'']) (Split content newline) of
        None \<Rightarrow> ''unknown''
      | Some line \<Rightarrow>
          (let v = strip_quotes (ToLower tbl (value_of line)) in
           if v \<in> set [''debian'', ''ubuntu'', ''alpine'', ''centos'', ''rhel'', ''fedora'']
           then v else ''other''))"

subsection \<open>The case table\<close>

text \<open>No code point above 127 has the equals sign as its lower case. The tables of
  Unicode meet this: a lower case is a letter.\<close>

definition keeps_equals_sign :: "case_table \<Rightarrow> bool" where
  "keeps_equals_sign tbl = (\<forall>r. 0x80 \<le> r \<longrightarrow> tbl r \<noteq> 61)"

text \<open>A table without entries: every code point is its own lower case. It agrees with
  the tables of Unicode on every code point that has no other lower case, among them
  \<open>U+017F\<close> (long s, whose capital is \<open>S\<close>) and \<open>U+0131\<close> (dotless i, whose capital is
  \<open>I\<close>); text without bytes above 127 never consults a table.\<close>

definition unchanged_table :: case_table where
  "unchanged_table r = r"

subsection \<open>The decoder, flat\<close>

text \<open>The tests of the decoder on the bytes after a lead byte, and the code point of a
  sequence that passes them, written out without nesting; the facts below compare them
  with the decoder.\<close>

definition sequence_ok :: "string \<Rightarrow> bool" where
  "sequence_ok s =
     (rune_size (byte_at s 0) \<le> length s \<and>
      \<not> (byte_at s 1 < accept_lo (byte_at s 0) \<or> accept_hi (byte_at s 0) < byte_at s 1) \<and>
      (3 \<le> rune_size (byte_at s 0) \<longrightarrow> \<not> (byte_at s 2 < 0x80 \<or> 0xBF < byte_at s 2)) \<and>
      (4 \<le> rune_size (byte_at s 0) \<longrightarrow> \<not> (byte_at s 3 < 0x80 \<or> 0xBF < byte_at s 3)))"

definition sequence_rune :: "string \<Rightarrow> nat" where
  "sequence_rune s =
     (if rune_size (byte_at s 0) \<le> 2 then (byte_at s 0 mod 32) * 64 + byte_at s 1 mod 64
      else if rune_size (byte_at s 0) \<le> 3 then
        (byte_at s 0 mod 16) * 4096 + (byte_at s 1 mod 64) * 64 + byte_at s 2 mod 64
      else (byte_at s 0 mod 8) * 262144 + (byte_at s 1 mod 64) * 4096 +
           (byte_at s 2 mod 64) * 64 + byte_at s 3 mod 64)"

subsection \<open>Tags and identity prefixes\<close>

definition base_type_tags :: "string list" where
  "base_type_tags = [''Debian'', ''Alpine'', ''RHEL'', ''Chainguard'', ''Other'', ''Unknown'']"

definition base_type_tags_v2 :: "string list" where
  "base_type_tags_v2 =
     [''debian'', ''ubuntu'', ''alpine'', ''centos'', ''rhel'', ''fedora'', ''other'', ''unknown'']"

definition starts_identity :: "case_table \<Rightarrow> string \<Rightarrow> bool" where
  "starts_identity tbl line =
     (HasPrefix (ToLower tbl line) ''id='' \<or> HasPrefix (ToLower tbl line) ''name='')"

definition starts_identity_v2 :: "case_table \<Rightarrow> string \<Rightarrow> bool" where
  "starts_identity_v2 tbl line = HasPrefix (ToLower tbl line) ''id=''"

subsection \<open>Sums of a count table\<close>

definition sum_counts :: "count_map \<Rightarrow> nat" where
  "sum_counts m = (\<Sum>k \<in> dom m. lookup0 m k)"

definition all_containers :: "Pod list \<Rightarrow> (Pod \<times> Container) list" where
  "all_containers pods = concat (map (\<lambda>pod. map (Pair pod) (pod_Containers pod)) pods)"

definition total_containers :: "Pod list \<Rightarrow> nat" where
  "total_containers pods = (\<Sum>pod\<leftarrow>pods. length (pod_Containers pod))"

definition pods_in_namespace :: "Pod list \<Rightarrow> string \<Rightarrow> nat" where
  "pods_in_namespace pods ns = length (filter (\<lambda>pod. pod_Namespace pod = ns) pods)"

definition snapshot_gauges :: "snapshot \<Rightarrow> gauges" where
  "snapshot_gauges s =
     \<lparr>podsPerNamespace = namespaceMap s, containerImageCount = imageMap s,
      containerBaseImageType = baseTypeMap s, containersFipsCompliant = fipsCount s\<rparr>"

subsection \<open>Scenario inputs\<close>

text \<open>The release file of the Ubuntu scenario: two lines, \<open>ID="ubuntu"\<close> and
  \<open>NAME="Ubuntu"\<close>.\<close>

definition ubuntu_release :: string where
  "ubuntu_release = ''ID=\"ubuntu\"'' @ [newline] @ ''NAME=\"Ubuntu\"''"

text \<open>Two values that differ only in letter case by the tables of Unicode: \<open>CENTOS\<close> and
  \<open>cento\<close> followed by the long s \<open>U+017F\<close> (bytes \<open>C5 BF\<close>); and two markers alike:
  \<open>FIPS=1\<close> and \<open>f\<close>, dotless i \<open>U+0131\<close> (bytes \<open>C4 B1\<close>), \<open>ps=1\<close>.\<close>

definition long_s_release :: string where
  "long_s_release = ''ID=cento'' @ [CHR 0xC5, CHR 0xBF]"

definition dotless_i_release :: string where
  "dotless_i_release = ''f'' @ [CHR 0xC4, CHR 0xB1] @ ''ps=1''"

text \<open>A listing of two pods with three containers, and a cluster in which the first
  container answers with a Debian release file, the stream of the second fails, and no
  executor can be created for the third.\<close>

definition web_pod :: Pod where
  "web_pod =
     \<lparr>pod_Namespace = ''default'', pod_Name = ''web'',
      pod_Containers =
        [\<lparr>container_Name = ''nginx'', container_Image = ''nginx:1.25''\<rparr>,
         \<lparr>container_Name = ''sidecar'', container_Image = ''registry/app-fips:2.0''\<rparr>]\<rparr>"

definition dns_pod :: Pod where
  "dns_pod =
     \<lparr>pod_Namespace = ''kube-system'', pod_Name = ''coredns'',
      pod_Containers = [\<lparr>container_Name = ''coredns'', container_Image = ''coredns:1.11''\<rparr>]\<rparr>"

definition demo_cluster :: cluster where
  "demo_cluster ns p c =
     (if c = ''nginx'' then Stdout ''ID=debian''
      else if c = ''sidecar'' then StreamError
      else ExecutorError)"

definition demo_order :: range_order where
  "demo_order =
     \<lparr>nsKeys = [''kube-system'', ''default''],
      imgKeys = [''registry/app-fips:2.0'', ''coredns:1.11'', ''nginx:1.25''],
      baseTypeKeys = [''Unknown'', ''Debian'']\<rparr>"

definition demo_order' :: range_order where
  "demo_order' =
     \<lparr>nsKeys = [''default'', ''kube-system''],
      imgKeys = [''nginx:1.25'', ''registry/app-fips:2.0'', ''coredns:1.11''],
      baseTypeKeys = [''Debian'', ''Unknown'']\<rparr>"

text \<open>Published gauges left by an earlier cycle, with labels the demo listing lacks.\<close>

definition stale_gauges :: gauges where
  "stale_gauges =
     \<lparr>podsPerNamespace = [''staging'' \<mapsto> 5],
      containerImageCount = [''alpine:3.19'' \<mapsto> 5],
      containerBaseImageType = [''Alpine'' \<mapsto> 5],
      containersFipsCompliant = 4\<rparr>"

section \<open>Facts about the string functions\<close>

lemma HasPrefix_iff_prefix: "HasPrefix s p \<longleftrightarrow> prefix p s"
proof
  assume "HasPrefix s p"
  then have "s = p @ drop (length p) s"
    by (metis HasPrefix_def append_take_drop_id)
  then show "prefix p s" by (metis prefixI)
next
  assume "prefix p s"
  then obtain zs where "s = p @ zs" by (auto simp: prefix_def)
  then show "HasPrefix s p" by (simp add: HasPrefix_def)
qed

lemma Contains_iff_sublist: "Contains s sub \<longleftrightarrow> sublist sub s"
  by (induction s) (simp_all add: HasPrefix_iff_prefix sublist_Cons_right)

subsection \<open>Decoding and lower case\<close>

declare Map_str.simps [simp del]

lemma Map_str_Nil [simp]: "Map_str f [] = []"
  by (simp add: Map_str.simps)

lemma Decode_ascii:
  "(of_char c :: nat) < 0x80 \<Longrightarrow> DecodeRuneInString (c # cs) = (of_char c, 1)"
  by (simp add: DecodeRuneInString_def byte_at_def)

lemma Decode_width_cases:
  "s \<noteq> [] \<Longrightarrow>
     snd (DecodeRuneInString s) = 1 \<or>
     (snd (DecodeRuneInString s) = rune_size (byte_at s 0) \<and> rune_size (byte_at s 0) \<le> length s)"
  by (simp add: DecodeRuneInString_def Let_def rune_size_def)

lemma Decode_width:
  assumes "s \<noteq> []"
  shows "1 \<le> snd (DecodeRuneInString s) \<and> snd (DecodeRuneInString s) \<le> length s"
proof -
  have "1 \<le> length s" using assms by (cases s) simp_all
  moreover have "1 \<le> rune_size (byte_at s 0)" by (simp add: rune_size_def)
  ultimately show ?thesis using Decode_width_cases [OF assms] by auto
qed

lemma Map_str_ascii_Cons:
  "(of_char c :: nat) < 0x80 \<Longrightarrow> Map_str f (c # cs) = AppendRune (f (of_char c)) @ Map_str f cs"
  by (subst Map_str.simps) (simp add: Decode_ascii)

lemma of_char_lower_byte:
  "(of_char (lower_byte c) :: nat) =
     (if 65 \<le> (of_char c :: nat) \<and> (of_char c :: nat) \<le> 90 then of_char c + 32 else of_char c)"
  by (simp add: lower_byte_def Let_def)

lemma AppendRune_lower_ascii:
  assumes "(of_char c :: nat) < 0x80"
  shows "AppendRune (unicode_ToLower tbl (of_char c)) = [lower_byte c]"
proof -
  have "unicode_ToLower tbl (of_char c) = of_char (lower_byte c)"
    using assms by (simp add: unicode_ToLower_def of_char_lower_byte)
  moreover have "(of_char (lower_byte c) :: nat) \<le> 0x7F"
    using assms by (simp add: of_char_lower_byte)
  ultimately show ?thesis by (simp add: AppendRune_def)
qed

lemma Map_str_ascii:
  "list_all (\<lambda>c. (of_char c :: nat) < 0x80) s \<Longrightarrow>
     Map_str (unicode_ToLower tbl) s = map lower_byte s"
  by (induction s) (simp_all add: Map_str_ascii_Cons AppendRune_lower_ascii)

lemma map_lower_byte_no_upper:
  "\<not> list_ex (\<lambda>c. 65 \<le> (of_char c :: nat) \<and> (of_char c :: nat) \<le> 90) s \<Longrightarrow>
     map lower_byte s = s"
  by (induction s) (auto simp add: lower_byte_def Let_def)

text \<open>The two paths of \<open>ToLower\<close> agree: the ASCII path is the rune-wise map on ASCII
  text.\<close>

lemma ToLower_Map_str: "ToLower tbl s = Map_str (unicode_ToLower tbl) s"
  by (auto simp add: ToLower_def Let_def Map_str_ascii map_lower_byte_no_upper)


lemma rune_size_cases: "rune_size x = 2 \<or> rune_size x = 3 \<or> rune_size x = 4"
  by (simp add: rune_size_def)

lemma accept_lo_ge: "0x80 \<le> accept_lo x"
  by (simp add: accept_lo_def)

lemma Decode_flat:
  assumes "s \<noteq> []"
  shows "DecodeRuneInString s =
     (if byte_at s 0 < 0x80 then (byte_at s 0, 1)
      else if byte_at s 0 < 0xC2 \<or> 0xF4 < byte_at s 0 then (RuneError, 1)
      else if sequence_ok s then (sequence_rune s, rune_size (byte_at s 0))
      else (RuneError, 1))"
proof -
  have ne: "\<not> length s < 1" using assms(1) by (cases s) simp_all
  from rune_size_cases [of "byte_at s 0"] show ?thesis
  proof (elim disjE)
    assume "rune_size (byte_at s 0) = 2"
    then show ?thesis using ne
      by (simp add: DecodeRuneInString_def Let_def sequence_ok_def sequence_rune_def)
  next
    assume "rune_size (byte_at s 0) = 3"
    then show ?thesis using ne
      by (simp add: DecodeRuneInString_def Let_def sequence_ok_def sequence_rune_def)
  next
    assume "rune_size (byte_at s 0) = 4"
    then show ?thesis using ne
      by (simp add: DecodeRuneInString_def Let_def sequence_ok_def sequence_rune_def)
  qed
qed

text \<open>Two strings that agree on the lead byte, on whether the sequence is well formed
  and, if it is, on its bytes, decode alike.\<close>

lemma Decode_cong:
  assumes "s \<noteq> []" and "t \<noteq> []"
      and "byte_at t 0 = byte_at s 0"
      and "sequence_ok t \<longleftrightarrow> sequence_ok s"
      and "sequence_ok s \<Longrightarrow> byte_at t 1 = byte_at s 1"
      and "sequence_ok s \<Longrightarrow> 3 \<le> rune_size (byte_at s 0) \<Longrightarrow> byte_at t 2 = byte_at s 2"
      and "sequence_ok s \<Longrightarrow> 4 \<le> rune_size (byte_at s 0) \<Longrightarrow> byte_at t 3 = byte_at s 3"
  shows "DecodeRuneInString t = DecodeRuneInString s"
proof (cases "sequence_ok s")
  case False
  with assms(1-4) show ?thesis by (simp add: Decode_flat)
next
  case True
  have "sequence_rune t = sequence_rune s"
    using assms(3) assms(5-7) [OF True] rune_size_cases [of "byte_at s 0"]
    by (auto simp add: sequence_rune_def)
  with True assms(1-4) show ?thesis by (simp add: Decode_flat)
qed

lemma byte_at_append:
  "byte_at (a @ c # b) i =
     (if i < length a then byte_at a i else if i = length a then of_char c
      else byte_at b (i - length a - 1))"
  by (auto simp add: byte_at_def nth_append nth_Cons')

lemma sequence_ok_append_ascii:
  assumes "a \<noteq> []" and "(of_char c :: nat) < 0x80"
  shows "sequence_ok (a @ c # b) \<longleftrightarrow> sequence_ok a"
proof (cases "rune_size (byte_at a 0) \<le> length a")
  case True
  with assms(1) rune_size_cases [of "byte_at a 0"] show ?thesis
    by (auto simp add: sequence_ok_def byte_at_append)
next
  case False
  then have na: "\<not> sequence_ok a" by (simp add: sequence_ok_def)
  have lo: "of_char c < accept_lo (byte_at a 0)"
    using assms(2) accept_lo_ge [of "byte_at a 0"] by simp
  have "0 < length a" using assms(1) by simp
  with False rune_size_cases [of "byte_at a 0"]
  have "length a = 1 \<or> (length a = 2 \<and> 3 \<le> rune_size (byte_at a 0))
          \<or> (length a = 3 \<and> 4 \<le> rune_size (byte_at a 0))"
    by arith
  then consider "length a = 1" | "length a = 2" "3 \<le> rune_size (byte_at a 0)"
    | "length a = 3" "4 \<le> rune_size (byte_at a 0)"
    by blast
  then have "\<not> sequence_ok (a @ c # b)"
  proof cases
    case 1
    then show ?thesis using lo by (simp add: sequence_ok_def byte_at_append)
  next
    case 2
    then show ?thesis using assms(2) by (simp add: sequence_ok_def byte_at_append)
  next
    case 3
    then show ?thesis using assms(2) by (simp add: sequence_ok_def byte_at_append)
  qed
  with na show ?thesis by simp
qed

lemma Decode_append_ascii:
  assumes "a \<noteq> []" and "(of_char c :: nat) < 0x80"
  shows "DecodeRuneInString (a @ c # b) = DecodeRuneInString a"
proof (rule Decode_cong)
  show "a \<noteq> []" by fact
  show "a @ c # b \<noteq> []" by simp
  show "byte_at (a @ c # b) 0 = byte_at a 0"
    using assms(1) by (simp add: byte_at_append)
  show "sequence_ok (a @ c # b) \<longleftrightarrow> sequence_ok a"
    using assms by (rule sequence_ok_append_ascii)
  show "byte_at (a @ c # b) 1 = byte_at a 1" if "sequence_ok a"
    using that rune_size_cases [of "byte_at a 0"]
    by (auto simp add: sequence_ok_def byte_at_append)
  show "byte_at (a @ c # b) 2 = byte_at a 2" if "sequence_ok a" "3 \<le> rune_size (byte_at a 0)"
    using that by (auto simp add: sequence_ok_def byte_at_append)
  show "byte_at (a @ c # b) 3 = byte_at a 3" if "sequence_ok a" "4 \<le> rune_size (byte_at a 0)"
    using that by (auto simp add: sequence_ok_def byte_at_append)
qed

lemma Map_str_append_ascii:
  assumes "(of_char c :: nat) < 0x80"
  shows "Map_str f (a @ c # b) = Map_str f a @ AppendRune (f (of_char c)) @ Map_str f b"
proof (induction a rule: length_induct)
  case (1 a)
  show ?case
  proof (cases "a = []")
    case True
    then show ?thesis using assms by (simp add: Map_str_ascii_Cons)
  next
    case False
    obtain r w where d: "DecodeRuneInString a = (r, w)" by (cases "DecodeRuneInString a")
    with Decode_width [OF False] have w: "1 \<le> w" "w \<le> length a" by simp_all
    have d': "DecodeRuneInString (a @ c # b) = (r, w)"
      using Decode_append_ascii [OF False assms] d by simp
    have "length (drop w a) < length a" using w False by simp
    with 1 have ih: "Map_str f (drop w a @ c # b) =
        Map_str f (drop w a) @ AppendRune (f (of_char c)) @ Map_str f b" by blast
    have "Map_str f (a @ c # b) = AppendRune (f r) @ Map_str f (drop w a @ c # b)"
      using w by (subst Map_str.simps) (simp add: d')
    also have "\<dots> = (AppendRune (f r) @ Map_str f (drop w a)) @ AppendRune (f (of_char c)) @ Map_str f b"
      by (simp add: ih)
    also have "AppendRune (f r) @ Map_str f (drop w a) = Map_str f a"
      using False by (subst (2) Map_str.simps) (simp add: d)
    finally show ?thesis .
  qed
qed

lemma of_char_upper_byte:
  "(of_char (upper_byte c) :: nat) =
     (if 97 \<le> (of_char c :: nat) \<and> (of_char c :: nat) \<le> 122 then of_char c - 32 else of_char c)"
  by (auto simp add: upper_byte_def Let_def)

lemma lower_upper_byte: "lower_byte (upper_byte c) = lower_byte c"
proof -
  have "(of_char (lower_byte (upper_byte c)) :: nat) = of_char (lower_byte c)"
    by (simp add: of_char_lower_byte of_char_upper_byte) arith
  then show ?thesis by (simp only: of_char_eq_iff)
qed

lemma lower_lower_byte: "lower_byte (lower_byte c) = lower_byte c"
proof -
  have "(of_char (lower_byte (lower_byte c)) :: nat) = of_char (lower_byte c)"
    by (simp add: of_char_lower_byte)
  then show ?thesis by (simp only: of_char_eq_iff)
qed

lemma case_variant_lower: "case_variant x y \<Longrightarrow> lower_byte x = lower_byte y"
  by (auto simp: case_variant_def lower_upper_byte lower_lower_byte)

text \<open>A byte above 127 has no other case; a byte below 128 has its cases below 128.\<close>

lemma case_variant_high:
  assumes "case_variant x y" and "0x80 \<le> (of_char x :: nat)"
  shows "y = x"
proof -
  have "lower_byte x = x" using assms(2) by (simp add: lower_byte_def Let_def)
  moreover have "upper_byte x = x" using assms(2) by (simp add: upper_byte_def Let_def)
  ultimately show ?thesis using assms(1) by (auto simp: case_variant_def)
qed

lemma case_variant_low:
  assumes "case_variant x y" and "(of_char x :: nat) < 0x80"
  shows "(of_char y :: nat) < 0x80"
proof -
  have "(of_char (lower_byte x) :: nat) < 0x80" using assms(2) by (simp add: of_char_lower_byte)
  moreover have "(of_char (upper_byte x) :: nat) < 0x80"
    using assms(2) by (auto simp add: of_char_upper_byte)
  ultimately show ?thesis using assms by (auto simp: case_variant_def)
qed

lemma case_variant_test:
  assumes "case_variant x y" and "0x80 \<le> lo"
  shows "((of_char x :: nat) < lo \<or> hi < of_char x) = ((of_char y :: nat) < lo \<or> hi < of_char y)"
proof (cases "(of_char x :: nat) < 0x80")
  case True
  with assms case_variant_low [OF assms(1) True] show ?thesis by simp
next
  case False
  then have "y = x" using case_variant_high [OF assms(1)] by simp
  then show ?thesis by simp
qed

lemma case_variant_pass:
  assumes "case_variant x y" and "0x80 \<le> lo" and "\<not> ((of_char x :: nat) < lo \<or> hi < of_char x)"
  shows "y = x"
  using case_variant_high [OF assms(1)] assms(2,3) by simp

lemma Decode_case_variant:
  assumes rel: "list_all2 case_variant a b" and ne: "a \<noteq> []"
      and hi: "0x80 \<le> byte_at a 0"
  shows "DecodeRuneInString b = DecodeRuneInString a"
proof -
  have len: "length b = length a" using rel by (simp add: list_all2_lengthD)
  have cv: "case_variant (a ! i) (b ! i)" if "i < length a" for i
    using rel that by (simp add: list_all2_conv_all_nth)
  have neb: "b \<noteq> []" using len ne by auto
  have b0: "byte_at b 0 = byte_at a 0"
    using case_variant_high [OF cv [of 0]] hi ne by (simp add: byte_at_def)
  have lo: "0x80 \<le> accept_lo (byte_at a 0)" by (rule accept_lo_ge)
  have t1: "(byte_at b 1 < accept_lo (byte_at a 0) \<or> accept_hi (byte_at a 0) < byte_at b 1) =
            (byte_at a 1 < accept_lo (byte_at a 0) \<or> accept_hi (byte_at a 0) < byte_at a 1)"
    if "1 < length a"
    using case_variant_test [OF cv [OF that] lo, of "accept_hi (byte_at a 0)"]
    by (auto simp add: byte_at_def)
  have t2: "(byte_at b 2 < 0x80 \<or> 0xBF < byte_at b 2) = (byte_at a 2 < 0x80 \<or> 0xBF < byte_at a 2)"
    if "2 < length a"
    using case_variant_test [OF cv [OF that], of "0x80::nat" "0xBF::nat"] by (auto simp add: byte_at_def)
  have t3: "(byte_at b 3 < 0x80 \<or> 0xBF < byte_at b 3) = (byte_at a 3 < 0x80 \<or> 0xBF < byte_at a 3)"
    if "3 < length a"
    using case_variant_test [OF cv [OF that], of "0x80::nat" "0xBF::nat"] by (auto simp add: byte_at_def)
  have e1: "byte_at b 1 = byte_at a 1"
    if "1 < length a" "\<not> (byte_at a 1 < accept_lo (byte_at a 0) \<or> accept_hi (byte_at a 0) < byte_at a 1)"
    using case_variant_pass [OF cv [OF that(1)] lo, of "accept_hi (byte_at a 0)"] that(2)
    by (simp add: byte_at_def)
  have e2: "byte_at b 2 = byte_at a 2"
    if "2 < length a" "\<not> (byte_at a 2 < 0x80 \<or> 0xBF < byte_at a 2)"
    using case_variant_pass [OF cv [OF that(1)], of "0x80::nat" "0xBF::nat"] that(2) by (simp add: byte_at_def)
  have e3: "byte_at b 3 = byte_at a 3"
    if "3 < length a" "\<not> (byte_at a 3 < 0x80 \<or> 0xBF < byte_at a 3)"
    using case_variant_pass [OF cv [OF that(1)], of "0x80::nat" "0xBF::nat"] that(2) by (simp add: byte_at_def)
  have ok: "sequence_ok b \<longleftrightarrow> sequence_ok a"
    using rune_size_cases [of "byte_at a 0"] t1 t2 t3
    by (auto simp add: sequence_ok_def b0 len)
  show ?thesis
  proof (rule Decode_cong [OF ne neb b0 ok])
    show "byte_at b 1 = byte_at a 1" if "sequence_ok a"
      using that rune_size_cases [of "byte_at a 0"] e1 by (auto simp add: sequence_ok_def)
    show "byte_at b 2 = byte_at a 2" if "sequence_ok a" "3 \<le> rune_size (byte_at a 0)"
      using that e2 by (auto simp add: sequence_ok_def)
    show "byte_at b 3 = byte_at a 3" if "sequence_ok a" "4 \<le> rune_size (byte_at a 0)"
      using that e3 by (auto simp add: sequence_ok_def)
  qed
qed

lemma Map_str_case_variant:
  "list_all2 case_variant a b \<Longrightarrow>
     Map_str (unicode_ToLower tbl) a = Map_str (unicode_ToLower tbl) b"
proof (induction a arbitrary: b rule: length_induct)
  case (1 a)
  let ?f = "unicode_ToLower tbl"
  show ?case
  proof (cases a)
    case Nil
    with 1(2) show ?thesis by simp
  next
    case (Cons x xs)
    with 1(2) obtain y ys where b: "b = y # ys" and xy: "case_variant x y"
      and rest: "list_all2 case_variant xs ys"
      by (auto simp add: list_all2_Cons1)
    show ?thesis
    proof (cases "(of_char x :: nat) < 0x80")
      case True
      then have y: "(of_char y :: nat) < 0x80" by (rule case_variant_low [OF xy])
      have "Map_str ?f xs = Map_str ?f ys"
        using 1(1) rest Cons by simp
      then show ?thesis
        using True y case_variant_lower [OF xy]
        by (simp add: Cons b Map_str_ascii_Cons AppendRune_lower_ascii)
    next
      case False
      have ne: "a \<noteq> []" using Cons by simp
      have hi: "0x80 \<le> byte_at a 0" using False Cons by (simp add: byte_at_def)
      have d: "DecodeRuneInString b = DecodeRuneInString a"
        using 1(2) ne hi by (rule Decode_case_variant)
      obtain r w where rw: "DecodeRuneInString a = (r, w)" by (cases "DecodeRuneInString a")
      with Decode_width [OF ne] have w: "1 \<le> w" "w \<le> length a" by simp_all
      have "list_all2 case_variant (drop w a) (drop w b)"
        using 1(2) by (rule list_all2_dropI)
      moreover have "length (drop w a) < length a" using w ne by simp
      ultimately have ih: "Map_str ?f (drop w a) = Map_str ?f (drop w b)"
        using 1(1) by blast
      have "Map_str ?f a = AppendRune (?f r) @ Map_str ?f (drop w a)"
        using ne by (subst Map_str.simps) (simp add: rw)
      moreover have "Map_str ?f b = AppendRune (?f r) @ Map_str ?f (drop w b)"
      proof -
        have neb: "b \<noteq> []" using b by simp
        have d': "DecodeRuneInString b = (r, w)" using d rw by simp
        show ?thesis using neb by (subst Map_str.simps) (simp add: d')
      qed
      ultimately show ?thesis using ih by simp
    qed
  qed
qed

lemma differs_only_in_case_ToLower:
  "differs_only_in_case a b \<Longrightarrow> ToLower tbl a = ToLower tbl b"
  by (simp add: differs_only_in_case_def ToLower_Map_str Map_str_case_variant)

lemma AppendRune_ascii_mem:
  assumes "x \<in> set (AppendRune r)" and "(of_char x :: nat) < 0x80"
  shows "r = of_char x"
proof (cases "r \<le> 0x7F")
  case True
  with assms show ?thesis by (simp add: AppendRune_def)
next
  case False
  have "\<forall>y \<in> set (AppendRune r). 0x80 \<le> (of_char y :: nat)"
  proof -
    consider "r \<le> 0x7FF" | "0x7FF < r" "0x10FFFF < r \<or> (0xD800 \<le> r \<and> r \<le> 0xDFFF)"
      | "0x7FF < r" "\<not> (0x10FFFF < r \<or> (0xD800 \<le> r \<and> r \<le> 0xDFFF))" "r \<le> 0xFFFF"
      | "0xFFFF < r" "r \<le> 0x10FFFF"
      by linarith
    then show ?thesis
    proof cases
      case 1
      then have "r div 64 \<le> 31" by simp
      then have "(0xC0 + r div 64) mod 256 = 0xC0 + r div 64" by simp
      moreover have "(0x80 + r mod 64) mod 256 = 0x80 + r mod 64"
        using mod_less_divisor [of 64 r] by simp
      ultimately show ?thesis using False 1 by (simp add: AppendRune_def)
    next
      case 2
      then show ?thesis using False by (auto simp add: AppendRune_def)
    next
      case 3
      then have "r div 4096 \<le> 15" by simp
      then have "(0xE0 + r div 4096) mod 256 = 0xE0 + r div 4096" by simp
      moreover have "(0x80 + (r div 64) mod 64) mod 256 = 0x80 + (r div 64) mod 64"
        using mod_less_divisor [of 64 "r div 64"] by simp
      moreover have "(0x80 + r mod 64) mod 256 = 0x80 + r mod 64"
        using mod_less_divisor [of 64 r] by simp
      ultimately show ?thesis using False 3 by (simp add: AppendRune_def)
    next
      case 4
      then have "r div 262144 \<le> 4" by simp
      then have "(0xF0 + r div 262144) mod 256 = 0xF0 + r div 262144" by simp
      moreover have "(0x80 + (r div 4096) mod 64) mod 256 = 0x80 + (r div 4096) mod 64"
        using mod_less_divisor [of 64 "r div 4096"] by simp
      moreover have "(0x80 + (r div 64) mod 64) mod 256 = 0x80 + (r div 64) mod 64"
        using mod_less_divisor [of 64 "r div 64"] by simp
      moreover have "(0x80 + r mod 64) mod 256 = 0x80 + r mod 64"
        using mod_less_divisor [of 64 r] by simp
      ultimately show ?thesis using False 4 by (simp add: AppendRune_def)
    qed
  qed
  with assms show ?thesis by auto
qed

lemma mod_window:
  fixes x :: nat
  assumes "q * m \<le> x" and "x < q * m + m"
  shows "x mod m = x - q * m"
proof -
  define k where "k = x - q * m"
  have k: "x = q * m + k" "k < m" using assms by (simp_all add: k_def)
  then have "x mod m = k" by simp
  then show ?thesis by (simp add: k_def)
qed

lemma sequence_rune_ge:
  assumes "\<not> byte_at s 0 < 0x80" and "\<not> (byte_at s 0 < 0xC2 \<or> 0xF4 < byte_at s 0)"
      and "sequence_ok s"
  shows "0x80 \<le> sequence_rune s"
proof -
  let ?s0 = "byte_at s 0" and ?s1 = "byte_at s 1"
  from assms(3) have r1: "accept_lo ?s0 \<le> ?s1" "?s1 \<le> accept_hi ?s0"
    by (simp_all add: sequence_ok_def)
  show ?thesis
  proof (cases "?s0 < 0xE0")
    case True
    with assms(2) have "2 \<le> ?s0 mod 32" using mod_window [of 6 32 ?s0] by simp
    then have "128 \<le> (?s0 mod 32) * 64" by simp
    with True show ?thesis by (simp add: sequence_rune_def rune_size_def)
  next
    case False
    note ge_E0 = False
    show ?thesis
    proof (cases "?s0 < 0xF0")
      case True
      have "2048 \<le> (?s0 mod 16) * 4096 + (?s1 mod 64) * 64"
      proof (cases "?s0 = 0xE0")
        case True
        with r1 have "0xA0 \<le> ?s1" "?s1 \<le> 0xBF" by (simp_all add: accept_lo_def accept_hi_def)
        then have "32 \<le> ?s1 mod 64" using mod_window [of 2 64 ?s1] by simp
        then show ?thesis by simp
      next
        case False
        with ge_E0 True have "1 \<le> ?s0 mod 16" using mod_window [of 14 16 ?s0] by simp
        then have "4096 \<le> (?s0 mod 16) * 4096" by simp
        then show ?thesis by simp
      qed
      with True ge_E0 show ?thesis by (simp add: sequence_rune_def rune_size_def)
    next
      case False
      have "65536 \<le> (?s0 mod 8) * 262144 + (?s1 mod 64) * 4096"
      proof (cases "?s0 = 0xF0")
        case True
        with r1 have "0x90 \<le> ?s1" "?s1 \<le> 0xBF" by (simp_all add: accept_lo_def accept_hi_def)
        then have "16 \<le> ?s1 mod 64" using mod_window [of 2 64 ?s1] by simp
        then show ?thesis by simp
      next
        case F: False
        with False assms(2) have "1 \<le> ?s0 mod 8" using mod_window [of 30 8 ?s0] by simp
        then have "262144 \<le> (?s0 mod 8) * 262144" by simp
        then show ?thesis by simp
      qed
      with False ge_E0 show ?thesis by (simp add: sequence_rune_def rune_size_def)
    qed
  qed
qed

lemma Decode_small:
  assumes "s \<noteq> []" and "fst (DecodeRuneInString s) < 0x80"
  shows "byte_at s 0 = fst (DecodeRuneInString s)"
proof -
  have "0x80 \<le> RuneError" by (simp add: RuneError_def)
  with assms sequence_rune_ge [of s] show ?thesis
    by (auto simp add: Decode_flat split: if_splits)
qed

lemma unicode_ToLower_equals:
  assumes "keeps_equals_sign tbl" and "unicode_ToLower tbl r = 61"
  shows "r = 61"
  using assms by (auto simp add: unicode_ToLower_def keeps_equals_sign_def split: if_splits)

lemma Map_str_equals_sign:
  assumes "keeps_equals_sign tbl"
  shows "CHR ''='' \<in> set (Map_str (unicode_ToLower tbl) s) \<Longrightarrow> CHR ''='' \<in> set s"
proof (induction s rule: length_induct)
  case (1 s)
  let ?f = "unicode_ToLower tbl"
  show ?case
  proof (cases "s = []")
    case True
    with 1(2) show ?thesis by simp
  next
    case False
    obtain r w where rw: "DecodeRuneInString s = (r, w)" by (cases "DecodeRuneInString s")
    with Decode_width [OF False] have w: "1 \<le> w" "w \<le> length s" by simp_all
    have m: "Map_str ?f s = AppendRune (?f r) @ Map_str ?f (drop w s)"
      using False by (subst Map_str.simps) (simp add: rw)
    from 1(2) m consider "CHR ''='' \<in> set (AppendRune (?f r))"
      | "CHR ''='' \<in> set (Map_str ?f (drop w s))" by auto
    then show ?thesis
    proof cases
      case 1
      then have "?f r = 61" using AppendRune_ascii_mem [of "CHR ''=''" "?f r"] by simp
      then have "r = 61" using assms by (rule unicode_ToLower_equals [rotated])
      then have "byte_at s 0 = 61" using Decode_small [OF False] rw by simp
      then have "(of_char (s ! 0) :: nat) = of_char (CHR ''='')"
        by (simp add: byte_at_def)
      then have "s ! 0 = CHR ''=''" by (simp only: of_char_eq_iff)
      then show ?thesis using False by (metis length_greater_0_conv nth_mem)
    next
      case 2
      have "length (drop w s) < length s" using w False by simp
      with "1.IH" 2 have "CHR ''='' \<in> set (drop w s)" by blast
      then show ?thesis by (rule in_set_dropD)
    qed
  qed
qed

lemma ToLower_equals_sign:
  "keeps_equals_sign tbl \<Longrightarrow> CHR ''='' \<in> set (ToLower tbl s) \<Longrightarrow> CHR ''='' \<in> set s"
  by (simp add: ToLower_Map_str Map_str_equals_sign)

text \<open>The lower case of a text splits at a byte below 128.\<close>

lemma ToLower_append_ascii:
  assumes "(of_char c :: nat) < 0x80"
  shows "ToLower tbl (a @ c # b) = ToLower tbl a @ lower_byte c # ToLower tbl b"
  using Map_str_append_ascii [OF assms, of "unicode_ToLower tbl" a b]
  by (simp add: ToLower_Map_str AppendRune_lower_ascii [OF assms])

lemma ToLower_Nil [simp]: "ToLower tbl [] = []"
  by (simp add: ToLower_Map_str)

text \<open>A byte that is no letter is the lower case of itself only.\<close>

lemma lower_byte_eq_fixed:
  assumes "\<not> (65 \<le> (of_char d :: nat) \<and> (of_char d :: nat) \<le> 90)"
      and "\<not> (97 \<le> (of_char d :: nat) \<and> (of_char d :: nat) \<le> 122)"
  shows "lower_byte c = d \<longleftrightarrow> c = d"
proof -
  have "lower_byte c = d \<longleftrightarrow> (of_char (lower_byte c) :: nat) = of_char d"
    by (simp only: of_char_eq_iff)
  also have "\<dots> \<longleftrightarrow> (of_char c :: nat) = of_char d"
    using assms by (auto simp add: of_char_lower_byte)
  also have "\<dots> \<longleftrightarrow> c = d"
    by (simp only: of_char_eq_iff)
  finally show ?thesis .
qed

lemma lower_byte_newline [simp]: "lower_byte c = newline \<longleftrightarrow> c = newline"
  by (rule lower_byte_eq_fixed) (simp_all add: newline_def)

subsection \<open>Splitting\<close>

lemma Split_not_Nil [simp]: "Split s sep \<noteq> []"
  by (induction s) (simp_all split: list.splits)

lemma Split_no_sep: "sep \<notin> set s \<Longrightarrow> Split s sep = [s]"
  by (induction s) auto

lemma Split_pieces_no_sep: "l \<in> set (Split s sep) \<Longrightarrow> sep \<notin> set l"
proof (induction s arbitrary: l)
  case Nil
  then show ?case by simp
next
  case (Cons c s)
  show ?case
  proof (cases "c = sep")
    case True
    with Cons show ?thesis by auto
  next
    case False
    obtain piece pieces where sp: "Split s sep = piece # pieces"
      by (cases "Split s sep") simp_all
    from Cons.prems False sp have "l = c # piece \<or> l \<in> set pieces"
      by simp
    then show ?thesis
    proof
      assume "l = c # piece"
      moreover have "sep \<notin> set piece"
        using Cons.IH [of piece] sp by simp
      ultimately show ?thesis using False by auto
    next
      assume "l \<in> set pieces"
      then have "l \<in> set (Split s sep)" using sp by simp
      then show ?thesis by (rule Cons.IH)
    qed
  qed
qed

lemma Split_append_sep: "Split (a @ sep # b) sep = Split a sep @ Split b sep"
  by (induction a) (simp_all split: list.splits)

lemma find_append_Some: "find P xs = Some x \<Longrightarrow> find P (xs @ ys) = Some x"
  by (induction xs) (simp_all split: if_splits)

lemma find_Some_mem: "find P xs = Some x \<Longrightarrow> x \<in> set xs"
  by (induction xs) (auto split: if_splits)

lemma find_Some_holds: "find P xs = Some x \<Longrightarrow> P x"
  by (induction xs) (auto split: if_splits)

lemma case_variant_newline: "case_variant x y \<Longrightarrow> (x = newline) = (y = newline)"
  using case_variant_lower [of x y] lower_byte_newline [of x] lower_byte_newline [of y]
  by auto

text \<open>Contents that differ only in letter case have the same lines up to letter case.\<close>

lemma Split_case_variant:
  "list_all2 case_variant a b \<Longrightarrow>
     list_all2 (list_all2 case_variant) (Split a newline) (Split b newline)"
proof (induction a b rule: list_all2_induct)
  case Nil
  show ?case by simp
next
  case (Cons x xs y ys)
  obtain p ps where p: "Split xs newline = p # ps" by (cases "Split xs newline") simp_all
  obtain q qs where q: "Split ys newline = q # qs" by (cases "Split ys newline") simp_all
  from Cons.IH p q have r: "list_all2 case_variant p q" "list_all2 (list_all2 case_variant) ps qs"
    by simp_all
  show ?case
  proof (cases "x = newline")
    case True
    then have "y = newline" using case_variant_newline [OF Cons.hyps(1)] by simp
    with True Cons.IH show ?thesis by simp
  next
    case False
    then have "y \<noteq> newline" using case_variant_newline [OF Cons.hyps(1)] by simp
    with False p q r Cons.hyps(1) show ?thesis by simp
  qed
qed

lemma map_ToLower_case_variant:
  "list_all2 (list_all2 case_variant) ls ls' \<Longrightarrow> map (ToLower tbl) ls = map (ToLower tbl) ls'"
proof (induction ls ls' rule: list_all2_induct)
  case Nil
  show ?case by simp
next
  case (Cons l ls l' ls')
  have "ToLower tbl l = ToLower tbl l'"
    using Cons.hyps(1) by (simp add: ToLower_Map_str Map_str_case_variant)
  with Cons.IH show ?case by simp
qed

section \<open>Facts about the classifier\<close>

text \<open>The loop over the lines looks at their lower case only.\<close>

lemma parseOsRelease_lines_cong:
  "map (ToLower tbl) ls = map (ToLower tbl) ls' \<Longrightarrow>
     parseOsRelease_lines tbl ls = parseOsRelease_lines tbl ls'"
proof (induction ls arbitrary: ls')
  case Nil
  then show ?case by simp
next
  case (Cons l ls)
  then obtain l' ms where ls': "ls' = l' # ms" and l: "ToLower tbl l = ToLower tbl l'"
    and rest: "map (ToLower tbl) ls = map (ToLower tbl) ms"
    by (cases ls') auto
  have "parseOsRelease_lines tbl ls = parseOsRelease_lines tbl ms"
    using rest by (rule Cons.IH)
  then show ?case by (simp add: ls' l Let_def)
qed

lemma parseOsRelease_case_variant:
  assumes "differs_only_in_case content content'"
  shows "parseOsRelease tbl content = parseOsRelease tbl content'"
proof -
  have "list_all2 (list_all2 case_variant) (Split content newline) (Split content' newline)"
    using assms unfolding differs_only_in_case_def by (rule Split_case_variant)
  then have "map (ToLower tbl) (Split content newline) = map (ToLower tbl) (Split content' newline)"
    by (rule map_ToLower_case_variant)
  then show ?thesis unfolding parseOsRelease_def by (rule parseOsRelease_lines_cong)
qed

lemma isFipsCompliant_case_variant:
  assumes "differs_only_in_case content content'" and "differs_only_in_case img img'"
  shows "isFipsCompliant tbl content img = isFipsCompliant tbl content' img'"
  using differs_only_in_case_ToLower [OF assms(1), of tbl]
    differs_only_in_case_ToLower [OF assms(2), of tbl]
  by (simp add: isFipsCompliant_def isFipsFromImageName_def)

lemma base_type_of_value_tags: "base_type_of_value v \<in> set base_type_tags"
  by (simp add: base_type_of_value_def base_type_tags_def)

lemma base_type_of_id_v2_tags: "base_type_of_id_v2 v \<in> set base_type_tags_v2"
  by (auto simp add: base_type_of_id_v2_def base_type_tags_v2_def)

lemma parseOsRelease_lines_tags: "parseOsRelease_lines tbl ls \<in> set base_type_tags"
proof (induction ls)
  case Nil
  show ?case by (simp add: base_type_tags_def)
next
  case (Cons l ls)
  then show ?case by (simp add: Let_def base_type_of_value_tags)
qed

lemma parseOsRelease_lines_v2_tags: "parseOsRelease_lines_v2 tbl ls \<in> set base_type_tags_v2"
proof (induction ls)
  case Nil
  show ?case by (simp add: base_type_tags_v2_def)
next
  case (Cons l ls)
  then show ?case by (simp add: Let_def base_type_of_id_v2_tags)
qed

lemma parseOsRelease_lines_find:
  "parseOsRelease_lines tbl ls =
     (case find (starts_identity tbl) ls of None \<Rightarrow> ''Unknown'' | Some l \<Rightarrow> parseOsRelease_lines tbl [l])"
  by (induction ls) (simp_all add: Let_def starts_identity_def)

lemma parseOsRelease_lines_v2_find:
  "parseOsRelease_lines_v2 tbl ls =
     (case find (starts_identity_v2 tbl) ls of None \<Rightarrow> ''unknown'' | Some l \<Rightarrow> parseOsRelease_lines_v2 tbl [l])"
  by (induction ls) (simp_all add: Let_def starts_identity_v2_def)

lemma parseOsRelease_find:
  "parseOsRelease tbl content =
     (case find (starts_identity tbl) (Split content newline) of
        None \<Rightarrow> ''Unknown'' | Some l \<Rightarrow> parseOsRelease tbl l)"
proof (cases "find (starts_identity tbl) (Split content newline)")
  case None
  then show ?thesis
    using parseOsRelease_lines_find [of tbl "Split content newline"]
    by (simp add: parseOsRelease_def)
next
  case (Some l)
  then have "l \<in> set (Split content newline)" by (rule find_Some_mem)
  then have "newline \<notin> set l" by (rule Split_pieces_no_sep)
  then have "Split l newline = [l]" by (rule Split_no_sep)
  with Some show ?thesis
    using parseOsRelease_lines_find [of tbl "Split content newline"]
    by (simp add: parseOsRelease_def)
qed

lemma parseOsRelease_v2_find:
  "parseOsRelease_v2 tbl content =
     (case find (starts_identity_v2 tbl) (Split content newline) of
        None \<Rightarrow> ''unknown'' | Some l \<Rightarrow> parseOsRelease_v2 tbl l)"
proof (cases "find (starts_identity_v2 tbl) (Split content newline)")
  case None
  then show ?thesis
    using parseOsRelease_lines_v2_find [of tbl "Split content newline"]
    by (simp add: parseOsRelease_v2_def)
next
  case (Some l)
  then have "l \<in> set (Split content newline)" by (rule find_Some_mem)
  then have "newline \<notin> set l" by (rule Split_pieces_no_sep)
  then have "Split l newline = [l]" by (rule Split_no_sep)
  with Some show ?thesis
    using parseOsRelease_lines_v2_find [of tbl "Split content newline"]
    by (simp add: parseOsRelease_v2_def)
qed

lemma parseOsRelease_later_lines:
  assumes "find (starts_identity tbl) (Split content newline) \<noteq> None"
  shows "parseOsRelease tbl (content @ newline # later) = parseOsRelease tbl content"
proof -
  from assms obtain l where l: "find (starts_identity tbl) (Split content newline) = Some l" by auto
  then have "find (starts_identity tbl) (Split (content @ newline # later) newline) = Some l"
    by (simp add: Split_append_sep find_append_Some)
  with l show ?thesis by (simp add: parseOsRelease_find)
qed

lemma parseOsRelease_v2_later_lines:
  assumes "find (starts_identity_v2 tbl) (Split content newline) \<noteq> None"
  shows "parseOsRelease_v2 tbl (content @ newline # later) = parseOsRelease_v2 tbl content"
proof -
  from assms obtain l where l: "find (starts_identity_v2 tbl) (Split content newline) = Some l" by auto
  then have "find (starts_identity_v2 tbl) (Split (content @ newline # later) newline) = Some l"
    by (simp add: Split_append_sep find_append_Some)
  with l show ?thesis by (simp add: parseOsRelease_v2_find)
qed

lemma isFipsCompliant_iff_marker:
  "isFipsCompliant tbl content img \<longleftrightarrow>
     has_compliance_marker tbl content \<or> isFipsFromImageName tbl img"
  by (simp add: isFipsCompliant_def has_compliance_marker_def contains_ci_def Let_def)


section \<open>Facts about the identity line\<close>

lemma sublist_dropWhile:
  assumes "t \<noteq> []" and "\<forall>c \<in> set t. \<not> P c"
  shows "sublist t (dropWhile P s) \<longleftrightarrow> sublist t s"
proof (induction s)
  case Nil
  show ?case by simp
next
  case (Cons c s)
  show ?case
  proof (cases "P c")
    case True
    have "\<not> prefix t (c # s)"
    proof
      assume "prefix t (c # s)"
      with assms(1) have "hd t = c" by (cases t) simp_all
      with assms True show False by (cases t) simp_all
    qed
    with True Cons show ?thesis by (simp add: sublist_Cons_right)
  next
    case False
    then show ?thesis by simp
  qed
qed

lemma Contains_Trim:
  assumes "t \<noteq> []" and "\<forall>c \<in> set t. c \<notin> set cutset"
  shows "Contains (Trim s cutset) t \<longleftrightarrow> Contains s t"
proof -
  let ?P = "\<lambda>c. c \<in> set cutset"
  have r: "rev t \<noteq> []" "\<forall>c \<in> set (rev t). \<not> ?P c" using assms by simp_all
  have "sublist t (rev (dropWhile ?P (rev (dropWhile ?P s))))
          \<longleftrightarrow> sublist (rev t) (dropWhile ?P (rev (dropWhile ?P s)))"
    by (simp add: sublist_rev_right)
  also have "\<dots> \<longleftrightarrow> sublist (rev t) (rev (dropWhile ?P s))"
    using r by (rule sublist_dropWhile)
  also have "\<dots> \<longleftrightarrow> sublist t (dropWhile ?P s)" by simp
  also have "\<dots> \<longleftrightarrow> sublist t s"
    using assms by (intro sublist_dropWhile) simp_all
  finally show ?thesis by (simp add: Contains_iff_sublist Trim_def)
qed

lemma sublist_after_sep:
  assumes "sep \<notin> set t" and "\<not> sublist t (a @ [sep])"
  shows "sublist t (a @ sep # r) \<longleftrightarrow> sublist t r"
proof
  assume "sublist t r"
  then show "sublist t (a @ sep # r)"
    by (metis sublist_append sublist_Cons_right)
next
  assume "sublist t (a @ sep # r)"
  then have "sublist t ((a @ [sep]) @ r)" by simp
  then consider "sublist t (a @ [sep])" | "sublist t r"
    | t1 t2 where "t = t1 @ t2" "suffix t1 (a @ [sep])" "prefix t2 r"
    unfolding sublist_append by blast
  then show "sublist t r"
  proof cases
    case 1
    with assms(2) show ?thesis by simp
  next
    case 2
    then show ?thesis .
  next
    case 3
    from 3(2) have "t1 = [] \<or> (\<exists>zs. t1 = zs @ [sep])" by auto
    with 3(1) assms(1) have "t1 = []" by auto
    with 3 show ?thesis by simp
  qed
qed

lemma line_key_value:
  assumes "CHR ''='' \<in> set line"
  shows "line = takeWhile (\<lambda>c. c \<noteq> CHR ''='') line @ CHR ''='' # value_of line"
proof -
  let ?P = "\<lambda>c. c \<noteq> CHR ''=''"
  from assms have ne: "dropWhile ?P line \<noteq> []" by auto
  then have "hd (dropWhile ?P line) = CHR ''=''"
    using hd_dropWhile [of ?P line] by simp
  with ne have "dropWhile ?P line = CHR ''='' # value_of line"
    by (cases "dropWhile ?P line") (simp_all add: value_of_def)
  then show ?thesis
    by (metis takeWhile_dropWhile_id)
qed

lemma takeWhile_unique:
  assumes "k @ c # zs = k' @ c # zs'" and "c \<notin> set k" and "c \<notin> set k'"
  shows "k = k'"
proof -
  have "takeWhile (\<lambda>x. x \<noteq> c) (k @ c # zs) = k"
    using assms(2) by (auto simp add: takeWhile_tail)
  moreover have "takeWhile (\<lambda>x. x \<noteq> c) (k' @ c # zs') = k'"
    using assms(3) by (auto simp add: takeWhile_tail)
  ultimately show ?thesis using assms(1) by simp
qed

lemma lower_byte_equals_sign: "lower_byte (CHR ''='') = CHR ''=''"
  by (simp add: lower_byte_def)

lemma lower_byte_quote: "lower_byte (CHR 0x22) = CHR 0x22"
  by (simp add: lower_byte_def)

text \<open>The lower case of a line with an equals sign: the lower case of the key, the sign,
  the lower case of the value.\<close>

lemma ToLower_key_value:
  assumes "CHR ''='' \<in> set line"
  shows "ToLower tbl line =
     ToLower tbl (takeWhile (\<lambda>c. c \<noteq> CHR ''='') line) @ CHR ''='' # ToLower tbl (value_of line)"
proof -
  have "ToLower tbl line =
     ToLower tbl (takeWhile (\<lambda>c. c \<noteq> CHR ''='') line @ CHR ''='' # value_of line)"
    using line_key_value [OF assms] by simp
  also have "\<dots> = ToLower tbl (takeWhile (\<lambda>c. c \<noteq> CHR ''='') line) @
      lower_byte (CHR ''='') # ToLower tbl (value_of line)"
    by (rule ToLower_append_ascii) simp
  finally show ?thesis by (simp add: lower_byte_equals_sign)
qed

lemma HasPrefix_key:
  assumes tbl: "keeps_equals_sign tbl" and k: "CHR ''='' \<notin> set k"
  shows "HasPrefix (ToLower tbl line) (k @ ''='') \<longleftrightarrow> is_identity_line tbl [k] line"
proof
  let ?key = "takeWhile (\<lambda>c. c \<noteq> CHR ''='') line"
  assume "HasPrefix (ToLower tbl line) (k @ ''='')"
  then obtain zs where zs: "ToLower tbl line = k @ CHR ''='' # zs"
    by (auto simp: HasPrefix_iff_prefix prefix_def)
  then have "CHR ''='' \<in> set (ToLower tbl line)" by simp
  then have mem: "CHR ''='' \<in> set line" using tbl by (rule ToLower_equals_sign [rotated])
  have "CHR ''='' \<notin> set ?key" by (auto dest: set_takeWhileD)
  then have nk: "CHR ''='' \<notin> set (ToLower tbl ?key)"
    using ToLower_equals_sign [OF tbl] by blast
  have "k @ CHR ''='' # zs = ToLower tbl ?key @ CHR ''='' # ToLower tbl (value_of line)"
    using zs ToLower_key_value [OF mem, of tbl] by simp
  then have "k = ToLower tbl ?key" using k nk by (rule takeWhile_unique)
  with mem show "is_identity_line tbl [k] line"
    by (simp add: is_identity_line_def key_of_def)
next
  assume "is_identity_line tbl [k] line"
  then have mem: "CHR ''='' \<in> set line"
    and key: "ToLower tbl (takeWhile (\<lambda>c. c \<noteq> CHR ''='') line) = k"
    by (simp_all add: is_identity_line_def key_of_def split: if_splits)
  show "HasPrefix (ToLower tbl line) (k @ ''='')"
    using ToLower_key_value [OF mem, of tbl] key by (simp add: HasPrefix_iff_prefix)
qed

lemma identity_line_lower:
  assumes "is_identity_line tbl [k] line"
  shows "ToLower tbl line = k @ ''='' @ ToLower tbl (value_of line)"
proof -
  from assms have mem: "CHR ''='' \<in> set line"
    and key: "ToLower tbl (takeWhile (\<lambda>c. c \<noteq> CHR ''='') line) = k"
    by (simp_all add: is_identity_line_def key_of_def split: if_splits)
  show ?thesis using ToLower_key_value [OF mem, of tbl] key by simp
qed

lemma is_identity_line_two:
  "is_identity_line tbl [a, b] line \<longleftrightarrow>
     is_identity_line tbl [a] line \<or> is_identity_line tbl [b] line"
  by (auto simp: is_identity_line_def split: option.splits)

lemma starts_identity_iff:
  assumes "keeps_equals_sign tbl"
  shows "starts_identity tbl line \<longleftrightarrow> is_identity_line tbl [''id'', ''name''] line"
proof -
  have "HasPrefix (ToLower tbl line) ''id='' \<longleftrightarrow> is_identity_line tbl [''id''] line"
    using HasPrefix_key [OF assms, of "''id''" line] by simp
  moreover have "HasPrefix (ToLower tbl line) ''name='' \<longleftrightarrow> is_identity_line tbl [''name''] line"
    using HasPrefix_key [OF assms, of "''name''" line] by simp
  ultimately show ?thesis
    unfolding starts_identity_def is_identity_line_two by simp
qed

lemma starts_identity_v2_iff:
  assumes "keeps_equals_sign tbl"
  shows "starts_identity_v2 tbl line \<longleftrightarrow> is_identity_line tbl [''id''] line"
  using HasPrefix_key [OF assms, of "''id''" line] by (simp add: starts_identity_v2_def)

lemma TrimPrefix_append: "TrimPrefix (p @ s) p = s"
  by (simp add: TrimPrefix_def HasPrefix_def)

lemma Contains_TrimPrefix_name:
  assumes "CHR ''='' \<notin> set t" and "\<not> Contains ''name='' t"
  shows "Contains (TrimPrefix v ''name='') t \<longleftrightarrow> Contains v t"
proof (cases "HasPrefix v ''name=''")
  case False
  then show ?thesis by (simp add: TrimPrefix_def)
next
  case True
  then obtain r where v: "v = ''name'' @ CHR ''='' # r"
    by (auto simp: HasPrefix_iff_prefix prefix_def)
  have "\<not> sublist t (''name'' @ [CHR ''=''])"
    using assms(2) by (simp add: Contains_iff_sublist)
  with assms(1) have "sublist t (''name'' @ CHR ''='' # r) \<longleftrightarrow> sublist t r"
    by (rule sublist_after_sep)
  moreover have "TrimPrefix v ''name='' = r"
    using TrimPrefix_append [of "''name=''" r] v by simp
  ultimately show ?thesis by (simp add: v Contains_iff_sublist)
qed

text \<open>The value the code matches holds a token exactly when the lowered text after the
  first \<open>=\<close> does: neither the second \<open>TrimPrefix\<close> nor the quotes change that.\<close>

lemma code_value_Contains:
  assumes tbl: "keeps_equals_sign tbl" and l: "starts_identity tbl l"
      and t: "t \<noteq> []" "CHR 0x22 \<notin> set t" "CHR ''='' \<notin> set t" "\<not> Contains ''name='' t"
  shows "Contains (Trim (TrimPrefix (TrimPrefix (ToLower tbl l) ''id='') ''name='') dquote) t
           \<longleftrightarrow> Contains (ToLower tbl (value_of l)) t"
proof -
  have q: "\<forall>c \<in> set t. c \<notin> set dquote" using t(2) by (auto simp: dquote_def)
  have trim: "Contains (Trim x dquote) t \<longleftrightarrow> Contains x t" for x
    using t(1) q by (rule Contains_Trim)
  show ?thesis
  proof (cases "is_identity_line tbl [''id''] l")
    case True
    then have "ToLower tbl l = ''id='' @ ToLower tbl (value_of l)"
      using identity_line_lower [of tbl "''id''" l] by simp
    then have "TrimPrefix (ToLower tbl l) ''id='' = ToLower tbl (value_of l)"
      using TrimPrefix_append [of "''id=''" "ToLower tbl (value_of l)"] by simp
    then show ?thesis
      using Contains_TrimPrefix_name [OF t(3) t(4)] by (simp add: trim)
  next
    case False
    with l have n: "is_identity_line tbl [''name''] l"
      by (simp add: starts_identity_iff [OF tbl] is_identity_line_two)
    from False have "\<not> HasPrefix (ToLower tbl l) ''id=''"
      using HasPrefix_key [OF tbl, of "''id''" l] by simp
    then have 1: "TrimPrefix (ToLower tbl l) ''id='' = ToLower tbl l"
      by (simp add: TrimPrefix_def)
    from n have "ToLower tbl l = ''name='' @ ToLower tbl (value_of l)"
      using identity_line_lower [of tbl "''name''" l] by simp
    then have "TrimPrefix (ToLower tbl l) ''name='' = ToLower tbl (value_of l)"
      using TrimPrefix_append [of "''name=''" "ToLower tbl (value_of l)"] by simp
    with 1 show ?thesis by (simp add: trim)
  qed
qed

text \<open>Quotes at the ends of a text stay at the ends of its lower case, so stripping them
  before lowering does not change which tokens the lowered text holds.\<close>

lemma Contains_ToLower_leading_quotes:
  assumes "t \<noteq> []" and "CHR 0x22 \<notin> set t"
  shows "Contains (ToLower tbl (dropWhile (\<lambda>c. c \<in> set dquote) y)) t
           \<longleftrightarrow> Contains (ToLower tbl y) t"
proof (induction y)
  case Nil
  show ?case by simp
next
  case (Cons c y)
  show ?case
  proof (cases "c = CHR 0x22")
    case False
    then show ?thesis by (simp add: dquote_def)
  next
    case True
    have "ToLower tbl ([] @ CHR 0x22 # y) = ToLower tbl [] @ lower_byte (CHR 0x22) # ToLower tbl y"
      by (rule ToLower_append_ascii) simp
    then have low: "ToLower tbl (c # y) = CHR 0x22 # ToLower tbl y"
      using True by (simp add: lower_byte_quote)
    have "\<not> prefix t (CHR 0x22 # ToLower tbl y)"
      using assms by (cases t) auto
    then have "sublist t (CHR 0x22 # ToLower tbl y) \<longleftrightarrow> sublist t (ToLower tbl y)"
      by (simp add: sublist_Cons_right)
    with Cons True low show ?thesis by (simp add: Contains_iff_sublist dquote_def)
  qed
qed

lemma Contains_ToLower_trailing_quotes:
  assumes "t \<noteq> []" and "CHR 0x22 \<notin> set t"
  shows "Contains (ToLower tbl (rev (dropWhile (\<lambda>c. c \<in> set dquote) (rev y)))) t
           \<longleftrightarrow> Contains (ToLower tbl y) t"
proof (induction y rule: rev_induct)
  case Nil
  show ?case by simp
next
  case (snoc c y)
  show ?case
  proof (cases "c = CHR 0x22")
    case False
    then show ?thesis by (simp add: dquote_def)
  next
    case True
    have "ToLower tbl (y @ CHR 0x22 # []) = ToLower tbl y @ lower_byte (CHR 0x22) # ToLower tbl []"
      by (rule ToLower_append_ascii) simp
    then have low: "ToLower tbl (y @ [c]) = ToLower tbl y @ [CHR 0x22]"
      using True by (simp add: lower_byte_quote)
    have "\<not> suffix t (ToLower tbl y @ [CHR 0x22])"
      using assms by (auto simp add: suffix_def) (metis in_set_conv_decomp last_snoc last_appendR
          snoc_eq_iff_butlast append_is_Nil_conv last_in_set)
    moreover have "sublist t (ToLower tbl y @ [CHR 0x22]) \<longleftrightarrow>
        sublist t (ToLower tbl y) \<or> suffix t (ToLower tbl y @ [CHR 0x22])"
      by (metis sublist_rev sublist_Cons_right rev_append rev.simps(2) rev.simps(1) append_Nil
          suffix_to_prefix rev_rev_ident)
    ultimately have "sublist t (ToLower tbl y @ [CHR 0x22]) \<longleftrightarrow> sublist t (ToLower tbl y)"
      by blast
    with snoc True low show ?thesis by (simp add: Contains_iff_sublist dquote_def)
  qed
qed

lemma spec_value_contains:
  assumes "t \<noteq> []" and "CHR 0x22 \<notin> set t"
  shows "contains_ci tbl (strip_quotes y) t \<longleftrightarrow> Contains (ToLower tbl y) t"
proof -
  let ?P = "\<lambda>c. c \<in> set dquote"
  have "contains_ci tbl (strip_quotes y) t \<longleftrightarrow>
      Contains (ToLower tbl (rev (dropWhile ?P (rev (dropWhile ?P y))))) t"
    by (simp add: contains_ci_def strip_quotes_def Trim_def)
  also have "\<dots> \<longleftrightarrow> Contains (ToLower tbl (dropWhile ?P y)) t"
    using assms by (rule Contains_ToLower_trailing_quotes)
  also have "\<dots> \<longleftrightarrow> Contains (ToLower tbl y) t"
    using assms by (rule Contains_ToLower_leading_quotes)
  finally show ?thesis .
qed

lemma name_has_no_token:
  "\<not> Contains ''name='' ''debian''" "\<not> Contains ''name='' ''alpine''"
  "\<not> Contains ''name='' ''centos''" "\<not> Contains ''name='' ''rhel''"
  "\<not> Contains ''name='' ''ubi''" "\<not> Contains ''name='' ''wolfi''"
  by code_simp+

lemma identity_line_base_type:
  assumes tbl: "keeps_equals_sign tbl" and l: "starts_identity tbl l"
  shows "parseOsRelease_lines tbl [l] =
           first_match tbl distribution_rules (strip_quotes (value_of l))"
proof -
  let ?v = "Trim (TrimPrefix (TrimPrefix (ToLower tbl l) ''id='') ''name='') dquote"
  let ?y = "value_of l"
  have c1: "Contains ?v ''debian'' = Contains (ToLower tbl ?y) ''debian''"
    by (rule code_value_Contains [OF tbl l _ _ _ name_has_no_token(1)]) simp_all
  have c2: "Contains ?v ''alpine'' = Contains (ToLower tbl ?y) ''alpine''"
    by (rule code_value_Contains [OF tbl l _ _ _ name_has_no_token(2)]) simp_all
  have c3: "Contains ?v ''centos'' = Contains (ToLower tbl ?y) ''centos''"
    by (rule code_value_Contains [OF tbl l _ _ _ name_has_no_token(3)]) simp_all
  have c4: "Contains ?v ''rhel'' = Contains (ToLower tbl ?y) ''rhel''"
    by (rule code_value_Contains [OF tbl l _ _ _ name_has_no_token(4)]) simp_all
  have c5: "Contains ?v ''ubi'' = Contains (ToLower tbl ?y) ''ubi''"
    by (rule code_value_Contains [OF tbl l _ _ _ name_has_no_token(5)]) simp_all
  have c6: "Contains ?v ''wolfi'' = Contains (ToLower tbl ?y) ''wolfi''"
    by (rule code_value_Contains [OF tbl l _ _ _ name_has_no_token(6)]) simp_all
  note c = c1 c2 c3 c4 c5 c6
  have s: "contains_ci tbl (strip_quotes ?y) ''debian'' = Contains (ToLower tbl ?y) ''debian''"
    "contains_ci tbl (strip_quotes ?y) ''alpine'' = Contains (ToLower tbl ?y) ''alpine''"
    "contains_ci tbl (strip_quotes ?y) ''centos'' = Contains (ToLower tbl ?y) ''centos''"
    "contains_ci tbl (strip_quotes ?y) ''rhel'' = Contains (ToLower tbl ?y) ''rhel''"
    "contains_ci tbl (strip_quotes ?y) ''ubi'' = Contains (ToLower tbl ?y) ''ubi''"
    "contains_ci tbl (strip_quotes ?y) ''wolfi'' = Contains (ToLower tbl ?y) ''wolfi''"
    by (rule spec_value_contains; simp)+
  have "parseOsRelease_lines tbl [l] = base_type_of_value ?v"
    using l by (simp add: starts_identity_def Let_def)
  also have "\<dots> = first_match tbl distribution_rules (strip_quotes ?y)"
    unfolding base_type_of_value_def first_match_def distribution_rules_def
    by (simp add: c s)
  finally show ?thesis .
qed

lemma identity_line_base_type_v2:
  assumes tbl: "keeps_equals_sign tbl" and l: "starts_identity_v2 tbl l"
  shows "parseOsRelease_lines_v2 tbl [l] =
           (let v = strip_quotes (ToLower tbl (value_of l)) in
            if v \<in> set [''debian'', ''ubuntu'', ''alpine'', ''centos'', ''rhel'', ''fedora'']
            then v else ''other'')"
proof -
  from l have "ToLower tbl l = ''id='' @ ToLower tbl (value_of l)"
    using identity_line_lower [of tbl "''id''" l] by (simp add: starts_identity_v2_iff [OF tbl])
  then have "TrimPrefix (ToLower tbl l) ''id='' = ToLower tbl (value_of l)"
    using TrimPrefix_append [of "''id=''" "ToLower tbl (value_of l)"] by simp
  then have "parseOsRelease_lines_v2 tbl [l] =
      base_type_of_id_v2 (strip_quotes (ToLower tbl (value_of l)))"
    using l by (simp add: starts_identity_v2_def Let_def strip_quotes_def)
  then show ?thesis
    by (auto simp add: base_type_of_id_v2_def Let_def)
qed

lemma parseOsRelease_refines:
  assumes tbl: "keeps_equals_sign tbl"
  shows "parseOsRelease tbl content = spec_base_type tbl content"
proof -
  have eq: "is_identity_line tbl [''id'', ''name''] = starts_identity tbl"
    by (rule ext) (simp add: starts_identity_iff [OF tbl])
  show ?thesis
  proof (cases "find (starts_identity tbl) (Split content newline)")
    case None
    then show ?thesis
      using parseOsRelease_lines_find [of tbl "Split content newline"]
      by (simp add: parseOsRelease_def spec_base_type_def eq)
  next
    case (Some l)
    then have "starts_identity tbl l" by (rule find_Some_holds)
    then have "parseOsRelease_lines tbl [l] =
        first_match tbl distribution_rules (strip_quotes (value_of l))"
      by (rule identity_line_base_type [OF tbl])
    with Some show ?thesis
      using parseOsRelease_lines_find [of tbl "Split content newline"]
      by (simp add: parseOsRelease_def spec_base_type_def eq)
  qed
qed

lemma parseOsRelease_v2_refines:
  assumes tbl: "keeps_equals_sign tbl"
  shows "parseOsRelease_v2 tbl content = spec_base_type_v2 tbl content"
proof -
  have eq: "is_identity_line tbl [''id''] = starts_identity_v2 tbl"
    by (rule ext) (simp add: starts_identity_v2_iff [OF tbl])
  show ?thesis
  proof (cases "find (starts_identity_v2 tbl) (Split content newline)")
    case None
    then show ?thesis
      using parseOsRelease_lines_v2_find [of tbl "Split content newline"]
      by (simp add: parseOsRelease_v2_def spec_base_type_v2_def eq)
  next
    case (Some l)
    then have "starts_identity_v2 tbl l" by (rule find_Some_holds)
    then have "parseOsRelease_lines_v2 tbl [l] =
           (let v = strip_quotes (ToLower tbl (value_of l)) in
            if v \<in> set [''debian'', ''ubuntu'', ''alpine'', ''centos'', ''rhel'', ''fedora'']
            then v else ''other'')"
      by (rule identity_line_base_type_v2 [OF tbl])
    with Some show ?thesis
      using parseOsRelease_lines_v2_find [of tbl "Split content newline"]
      by (simp add: parseOsRelease_v2_def spec_base_type_v2_def eq)
  qed
qed

lemma keeps_equals_sign_unchanged: "keeps_equals_sign unchanged_table"
  by (simp add: keeps_equals_sign_def unchanged_table_def)

section \<open>Facts about counting and publication\<close>

lemma lookup0_incr: "lookup0 (incr m k) k' = (if k' = k then f64_inc (lookup0 m k) else lookup0 m k')"
  by (simp add: incr_def lookup0_def)

lemma dom_incr: "dom (incr m k) = insert k (dom m)"
  by (simp add: incr_def)

lemma dom_fold_incr: "dom (fold (\<lambda>k m. incr m k) ks m) = dom m \<union> set ks"
  by (induction ks arbitrary: m) (auto simp: dom_incr)

lemma lookup0_fold_incr:
  assumes "\<forall>k. lookup0 m k + count_list ks k \<le> 2 ^ 53"
  shows "lookup0 (fold (\<lambda>k m. incr m k) ks m) k' = lookup0 m k' + count_list ks k'"
  using assms
proof (induction ks arbitrary: m)
  case Nil
  show ?case by simp
next
  case (Cons k ks)
  from Cons.prems have "lookup0 m k + count_list (k # ks) k \<le> 2 ^ 53" by blast
  then have lt: "lookup0 m k < 2 ^ 53" by simp
  then have inc: "f64_inc (lookup0 m k) = lookup0 m k + 1" by (simp add: f64_inc_def)
  have "\<forall>x. lookup0 (incr m k) x + count_list ks x \<le> 2 ^ 53"
  proof
    fix x
    from Cons.prems have "lookup0 m x + count_list (k # ks) x \<le> 2 ^ 53" by blast
    then show "lookup0 (incr m k) x + count_list ks x \<le> 2 ^ 53"
      by (simp add: lookup0_incr inc split: if_splits)
  qed
  then have "lookup0 (fold (\<lambda>k m. incr m k) ks (incr m k)) k'
               = lookup0 (incr m k) k' + count_list ks k'"
    by (rule Cons.IH)
  then show ?case using inc by (auto simp add: lookup0_incr)
qed

lemma lookup0_count_from_empty:
  assumes "length ks \<le> 2 ^ 53"
  shows "lookup0 (fold (\<lambda>k m. incr m k) ks Map.empty) k = count_list ks k"
proof -
  have "\<forall>x. lookup0 Map.empty x + count_list ks x \<le> 2 ^ 53"
  proof
    fix x
    have "count_list ks x \<le> length ks" by (rule count_le_length)
    with assms show "lookup0 Map.empty x + count_list ks x \<le> 2 ^ 53"
      by (simp add: lookup0_def)
  qed
  then have "lookup0 (fold (\<lambda>k m. incr m k) ks Map.empty) k = lookup0 Map.empty k + count_list ks k"
    by (rule lookup0_fold_incr)
  then show ?thesis by (simp add: lookup0_def)
qed

lemma sum_counts_from_empty:
  assumes "length ks \<le> 2 ^ 53"
  shows "sum_counts (fold (\<lambda>k m. incr m k) ks Map.empty) = length ks"
proof -
  have "sum_counts (fold (\<lambda>k m. incr m k) ks Map.empty) = (\<Sum>k \<in> set ks. count_list ks k)"
    by (simp add: sum_counts_def dom_fold_incr lookup0_count_from_empty [OF assms])
  also have "\<dots> = length ks"
    by (rule sum_count_set) simp_all
  finally show ?thesis .
qed

text \<open>The three tables of the snapshot, each as a count over a list of keys.\<close>

lemma namespaceMap_container_steps:
  "namespaceMap (fold (container_step tbl cl pod) cs s) = namespaceMap s"
  by (induction cs arbitrary: s) (simp_all add: container_step_def split: prod.splits)

lemma imageMap_container_steps:
  "imageMap (fold (container_step tbl cl pod) cs s) =
     fold (\<lambda>k m. incr m k) (map container_Image cs) (imageMap s)"
  by (induction cs arbitrary: s) (simp_all add: container_step_def split: prod.splits)

lemma baseTypeMap_container_steps:
  "baseTypeMap (fold (container_step tbl cl pod) cs s) =
     fold (\<lambda>k m. incr m k) (map (\<lambda>c. fst (getContainerDetails tbl cl pod c)) cs) (baseTypeMap s)"
  by (induction cs arbitrary: s) (simp_all add: container_step_def split: prod.splits)

lemma namespaceMap_pod_steps:
  "namespaceMap (fold (pod_step tbl cl) pods s) =
     fold (\<lambda>k m. incr m k) (map pod_Namespace pods) (namespaceMap s)"
  by (induction pods arbitrary: s) (simp_all add: pod_step_def namespaceMap_container_steps)

lemma imageMap_pod_steps:
  "imageMap (fold (pod_step tbl cl) pods s) =
     fold (\<lambda>k m. incr m k) (map (\<lambda>(pod, c). container_Image c) (all_containers pods)) (imageMap s)"
  by (induction pods arbitrary: s)
     (simp_all add: pod_step_def imageMap_container_steps all_containers_def comp_def)

lemma baseTypeMap_pod_steps:
  "baseTypeMap (fold (pod_step tbl cl) pods s) =
     fold (\<lambda>k m. incr m k)
       (map (\<lambda>(pod, c). fst (getContainerDetails tbl cl pod c)) (all_containers pods)) (baseTypeMap s)"
  by (induction pods arbitrary: s)
     (simp_all add: pod_step_def baseTypeMap_container_steps all_containers_def comp_def)

lemma length_all_containers: "length (all_containers pods) = total_containers pods"
  by (induction pods) (simp_all add: all_containers_def total_containers_def)

text \<open>Publication: the set operations of one loop rebuild the table they range over.\<close>

lemma fold_upd_range_entries:
  "fold (\<lambda>(k, v) acc. acc(k \<mapsto> v)) (range_entries m ks) acc =
     (\<lambda>x. if x \<in> set ks \<and> m x \<noteq> None then m x else acc x)"
proof (induction ks arbitrary: acc)
  case Nil
  show ?case by (simp add: range_entries_def List.map_filter_simps)
next
  case (Cons k ks)
  let ?f = "\<lambda>(k, v) acc. acc(k \<mapsto> v)"
  show ?case
  proof (cases "m k")
    case None
    then have "range_entries m (k # ks) = range_entries m ks"
      by (simp add: range_entries_def List.map_filter_simps)
    then have "fold ?f (range_entries m (k # ks)) acc = fold ?f (range_entries m ks) acc"
      by (simp only:)
    also have "\<dots> = (\<lambda>x. if x \<in> set ks \<and> m x \<noteq> None then m x else acc x)"
      by (rule Cons.IH)
    also have "\<dots> = (\<lambda>x. if x \<in> set (k # ks) \<and> m x \<noteq> None then m x else acc x)"
      using None by (intro ext) auto
    finally show ?thesis .
  next
    case (Some v)
    then have "range_entries m (k # ks) = (k, v) # range_entries m ks"
      by (simp add: range_entries_def List.map_filter_simps)
    then have "fold ?f (range_entries m (k # ks)) acc = fold ?f (range_entries m ks) (acc(k \<mapsto> v))"
      by (simp only: fold_simps case_prod_conv)
    also have "\<dots> = (\<lambda>x. if x \<in> set ks \<and> m x \<noteq> None then m x else (acc(k \<mapsto> v)) x)"
      by (rule Cons.IH)
    also have "\<dots> = (\<lambda>x. if x \<in> set (k # ks) \<and> m x \<noteq> None then m x else acc x)"
      using Some by (intro ext) auto
    finally show ?thesis .
  qed
qed

lemma fold_upd_range_of:
  assumes "range_of m ks"
  shows "fold (\<lambda>(k, v) acc. acc(k \<mapsto> v)) (range_entries m ks) Map.empty = m"
proof
  fix k
  from assms have "set ks = dom m" by (simp add: range_of_def)
  then show "fold (\<lambda>(k, v) acc. acc(k \<mapsto> v)) (range_entries m ks) Map.empty k = m k"
    by (auto simp add: fold_upd_range_entries)
qed

lemma run_set_podsPerNamespace:
  "fold apply_op (map (\<lambda>(ns, count). SetPodsPerNamespace ns count) es) g =
     g\<lparr>podsPerNamespace := fold (\<lambda>(k, v) acc. acc(k \<mapsto> v)) es (podsPerNamespace g)\<rparr>"
  by (induction es arbitrary: g) (simp_all split: prod.splits)

lemma run_set_containerImageCount:
  "fold apply_op (map (\<lambda>(img, count). SetContainerImageCount img count) es) g =
     g\<lparr>containerImageCount := fold (\<lambda>(k, v) acc. acc(k \<mapsto> v)) es (containerImageCount g)\<rparr>"
  by (induction es arbitrary: g) (simp_all split: prod.splits)

lemma run_set_containerBaseImageType:
  "fold apply_op (map (\<lambda>(baseType, count). SetContainerBaseImageType baseType count) es) g =
     g\<lparr>containerBaseImageType :=
         fold (\<lambda>(k, v) acc. acc(k \<mapsto> v)) es (containerBaseImageType g)\<rparr>"
  by (induction es arbitrary: g) (simp_all split: prod.splits)

lemma updateMetrics_publishes:
  assumes "valid_order (aggregate tbl cl pods) ord"
  shows "updateMetrics tbl (Inr pods) cl ord g = snapshot_gauges (aggregate tbl cl pods)"
proof -
  let ?s = "aggregate tbl cl pods"
  from assms have ns: "range_of (namespaceMap ?s) (nsKeys ord)"
    and img: "range_of (imageMap ?s) (imgKeys ord)"
    and bt: "range_of (baseTypeMap ?s) (baseTypeKeys ord)"
    by (simp_all add: valid_order_def)
  show ?thesis
    by (simp add: updateMetrics_def updateMetrics_ops_def run_ops_def Let_def
        run_set_podsPerNamespace run_set_containerImageCount run_set_containerBaseImageType
        fold_upd_range_of [OF ns] fold_upd_range_of [OF img] fold_upd_range_of [OF bt]
        snapshot_gauges_def)
qed

lemma range_of_exists: "finite (dom m) \<Longrightarrow> \<exists>ks. range_of m ks"
  using finite_distinct_list [of "dom m"] by (auto simp: range_of_def)

lemma aggregate_finite_dom:
  "finite (dom (namespaceMap (aggregate tbl cl pods)))"
  "finite (dom (imageMap (aggregate tbl cl pods)))"
  "finite (dom (baseTypeMap (aggregate tbl cl pods)))"
  by (simp_all add: aggregate_def namespaceMap_pod_steps imageMap_pod_steps
      baseTypeMap_pod_steps dom_fold_incr empty_snapshot_def)

text \<open>Every snapshot has an iteration order: its tables are finite.\<close>

lemma valid_order_exists: "\<exists>ord. valid_order (aggregate tbl cl pods) ord"
proof -
  obtain ns where ns: "range_of (namespaceMap (aggregate tbl cl pods)) ns"
    using range_of_exists [OF aggregate_finite_dom(1)] by blast
  obtain img where img: "range_of (imageMap (aggregate tbl cl pods)) img"
    using range_of_exists [OF aggregate_finite_dom(2)] by blast
  obtain bt where bt: "range_of (baseTypeMap (aggregate tbl cl pods)) bt"
    using range_of_exists [OF aggregate_finite_dom(3)] by blast
  have "valid_order (aggregate tbl cl pods) \<lparr>nsKeys = ns, imgKeys = img, baseTypeKeys = bt\<rparr>"
    using ns img bt by (simp add: valid_order_def)
  then show ?thesis ..
qed

text \<open>The snapshot of the demo listing.\<close>

lemma demo_aggregate:
  "aggregate tbl demo_cluster [web_pod, dns_pod] =
     \<lparr>namespaceMap = [''default'' \<mapsto> 1, ''kube-system'' \<mapsto> 1],
      imageMap = [''nginx:1.25'' \<mapsto> 1, ''registry/app-fips:2.0'' \<mapsto> 1, ''coredns:1.11'' \<mapsto> 1],
      baseTypeMap = [''Debian'' \<mapsto> 1, ''Unknown'' \<mapsto> 2],
      fipsCount = 1\<rparr>"
proof -
  have b: "parseOsRelease tbl ''ID=debian'' = ''Debian''" by code_simp
  have f: "isFipsCompliant tbl ''ID=debian'' ''nginx:1.25'' = False" by code_simp
  have i: "isFipsFromImageName tbl ''registry/app-fips:2.0'' = True" by code_simp
  have w: "pod_Namespace web_pod = ''default''" "pod_Name web_pod = ''web''"
    "pod_Containers web_pod =
       [\<lparr>container_Name = ''nginx'', container_Image = ''nginx:1.25''\<rparr>,
        \<lparr>container_Name = ''sidecar'', container_Image = ''registry/app-fips:2.0''\<rparr>]"
    by (simp_all add: web_pod_def)
  have d: "pod_Namespace dns_pod = ''kube-system''" "pod_Name dns_pod = ''coredns''"
    "pod_Containers dns_pod = [\<lparr>container_Name = ''coredns'', container_Image = ''coredns:1.11''\<rparr>]"
    by (simp_all add: dns_pod_def)
  have d1: "getContainerDetails tbl demo_cluster web_pod
              \<lparr>container_Name = ''nginx'', container_Image = ''nginx:1.25''\<rparr> = (''Debian'', False)"
    by (simp add: getContainerDetails_def demo_cluster_def b f)
  have d2: "getContainerDetails tbl demo_cluster web_pod
              \<lparr>container_Name = ''sidecar'', container_Image = ''registry/app-fips:2.0''\<rparr>
              = (''Unknown'', True)"
    by (simp add: getContainerDetails_def demo_cluster_def i)
  have d3: "getContainerDetails tbl demo_cluster dns_pod
              \<lparr>container_Name = ''coredns'', container_Image = ''coredns:1.11''\<rparr>
              = (''Unknown'', False)"
    by (simp add: getContainerDetails_def demo_cluster_def)
  have inc: "f64_inc 0 = Suc 0" "f64_inc (Suc 0) = 2" by (simp_all add: f64_inc_def)
  have p1: "pod_step tbl demo_cluster web_pod empty_snapshot =
     \<lparr>namespaceMap = [''default'' \<mapsto> 1],
      imageMap = [''nginx:1.25'' \<mapsto> 1, ''registry/app-fips:2.0'' \<mapsto> 1],
      baseTypeMap = [''Debian'' \<mapsto> 1, ''Unknown'' \<mapsto> 1],
      fipsCount = 1\<rparr>"
    by (simp add: pod_step_def container_step_def w d1 d2 empty_snapshot_def incr_def
        lookup0_def inc)
  have p2: "pod_step tbl demo_cluster dns_pod
     \<lparr>namespaceMap = [''default'' \<mapsto> 1],
      imageMap = [''nginx:1.25'' \<mapsto> 1, ''registry/app-fips:2.0'' \<mapsto> 1],
      baseTypeMap = [''Debian'' \<mapsto> 1, ''Unknown'' \<mapsto> 1],
      fipsCount = 1\<rparr> =
     \<lparr>namespaceMap = [''default'' \<mapsto> 1, ''kube-system'' \<mapsto> 1],
      imageMap = [''nginx:1.25'' \<mapsto> 1, ''registry/app-fips:2.0'' \<mapsto> 1, ''coredns:1.11'' \<mapsto> 1],
      baseTypeMap = [''Debian'' \<mapsto> 1, ''Unknown'' \<mapsto> 2],
      fipsCount = 1\<rparr>"
    by (simp add: pod_step_def container_step_def d d3 incr_def lookup0_def inc)
  show ?thesis
    by (simp only: aggregate_def fold_simps p1 p2 id_apply comp_apply)
qed

section \<open>Facts about two letters beyond ASCII\<close>

text \<open>
  The lower case of the two scenario inputs with the long s and the dotless i, for any
  case table; and the results of the classifier on them for every table that leaves the
  two code points alone, as the tables of Unicode do.
\<close>

lemma long_s_lower: "ToLower tbl long_s_release = ''id=cento'' @ AppendRune (tbl 0x17F)"
  apply code_simp
  by simp

lemma dotless_i_lower: "ToLower tbl dotless_i_release = ''f'' @ AppendRune (tbl 0x131) @ ''ps=1''"
  by code_simp

lemma AppendRune_long_s: "AppendRune 0x17F = [CHR 0xC5, CHR 0xBF]"
  by code_simp

lemma AppendRune_dotless_i: "AppendRune 0x131 = [CHR 0xC4, CHR 0xB1]"
  by code_simp

lemma Split_long_s: "Split long_s_release newline = [long_s_release]"
  by code_simp

lemma long_s_any_table:
  assumes "tbl 0x17F = 0x17F"
  shows "parseOsRelease tbl long_s_release = ''Other''"
proof -
  have l: "ToLower tbl long_s_release = ''id=cento'' @ [CHR 0xC5, CHR 0xBF]"
    by (simp only: long_s_lower assms AppendRune_long_s)
  have v: "(let lowerLine = ''id=cento'' @ [CHR 0xC5, CHR 0xBF] in
      if HasPrefix lowerLine ''id='' \<or> HasPrefix lowerLine ''name='' then
        (let v0 = TrimPrefix lowerLine ''id='';
             v1 = TrimPrefix v0 ''name='';
             v = Trim v1 dquote
         in base_type_of_value v)
      else ''Unknown'') = ''Other''"
    by code_simp
  show ?thesis
    unfolding parseOsRelease_def Split_long_s parseOsRelease_lines.simps l
    using v by simp
qed

lemma dotless_i_any_table:
  assumes "tbl 0x131 = 0x131"
  shows "\<not> isFipsCompliant tbl dotless_i_release ''nginx:1.25''"
proof -
  have l: "ToLower tbl dotless_i_release = ''f'' @ [CHR 0xC4, CHR 0xB1] @ ''ps=1''"
    by (simp only: dotless_i_lower assms AppendRune_dotless_i)
  have c: "\<not> Contains (''f'' @ [CHR 0xC4, CHR 0xB1] @ ''ps=1'') ''fips_mode=yes''"
    "\<not> Contains (''f'' @ [CHR 0xC4, CHR 0xB1] @ ''ps=1'') ''fips=1''"
    by code_simp+
  have i: "\<not> isFipsFromImageName tbl ''nginx:1.25''" by code_simp
  show ?thesis
    unfolding isFipsCompliant_def l Let_def using c i by simp
qed

section \<open>Enumeration failure\<close>

text \<open>
  C2. When listing the pods fails, \<open>updateMetrics\<close> returns at once: the cycle makes no
  call on any gauge, neither reset nor set, and the published gauges are after the cycle
  what they were before it. The same holds in the second variant.
\<close>

theorem updateMetrics_listing_error_unchanged:
  "updateMetrics_ops tbl (Inl err) cl ord = [] \<and> updateMetrics tbl (Inl err) cl ord g = g \<and>
   updateMetrics_ops_v2 tbl (Inl err) cl ord = [] \<and> updateMetrics_v2 tbl (Inl err) cl ord g = g"
  by (simp add: updateMetrics_def updateMetrics_ops_def updateMetrics_v2_def
      updateMetrics_ops_v2_def run_ops_def)

section \<open>Compliance\<close>



text \<open>
  C7. The classifier is a function of its inputs, and the case of the letters \<open>A\<close> to
  \<open>Z\<close> does not reach it: two contents that differ only in the case of such letters (in
  the key or the value of the identity line, or anywhere else, whatever other bytes they
  hold) have the same base type, and with two image references that differ only so they
  have the same compliance result. Letters beyond these are compared in their lower case
  alone.
\<close>

theorem classifier_case_insensitive:
  assumes "differs_only_in_case content content'"
      and "differs_only_in_case img img'"
  shows "parseOsRelease tbl content = parseOsRelease tbl content' \<and>
         isFipsCompliant tbl content img = isFipsCompliant tbl content' img'"
  using parseOsRelease_case_variant [OF assms(1), of tbl]
    isFipsCompliant_case_variant [OF assms, of tbl]
  by simp

theorem classifier_case_insensitive_witness:
  "differs_only_in_case ''ID=debian'' ''id=DEBIAN'' \<and>
   differs_only_in_case ''registry/App-FIPS:2.0'' ''Registry/app-fips:2.0'' \<and>
   parseOsRelease unchanged_table ''ID=debian'' = parseOsRelease unchanged_table ''id=DEBIAN'' \<and>
   isFipsCompliant unchanged_table ''ID=debian'' ''registry/App-FIPS:2.0'' =
     isFipsCompliant unchanged_table ''id=DEBIAN'' ''Registry/app-fips:2.0''"
proof -
  have c: "differs_only_in_case ''ID=debian'' ''id=DEBIAN''" by code_simp
  have i: "differs_only_in_case ''registry/App-FIPS:2.0'' ''Registry/app-fips:2.0''"
    by code_simp
  show ?thesis using c i classifier_case_insensitive [OF c i, of unchanged_table] by simp
qed

text \<open>
  Letter case beyond ASCII does reach the classifier. The long s is a small letter whose
  capital is \<open>S\<close>, so \<open>cento\<close> with a long s and \<open>CENTOS\<close> differ only in letter case; the
  value \<open>CENTOS\<close> gives \<open>RHEL\<close>, the other one \<open>Other\<close>. Likewise the marker \<open>FIPS=1\<close>
  gives compliance, and the same marker in small letters with a dotless i does not. The
  table here leaves the long s and the dotless i alone, as the tables of Unicode do.
\<close>

theorem classifier_unicode_case_counterexample:
  "parseOsRelease unchanged_table ''ID=CENTOS'' = ''RHEL'' \<and>
   parseOsRelease unchanged_table long_s_release = ''Other'' \<and>
   isFipsCompliant unchanged_table ''FIPS=1'' ''nginx:1.25'' \<and>
   \<not> isFipsCompliant unchanged_table dotless_i_release ''nginx:1.25''"
  by code_simp

section \<open>Inspection failure\<close>

text \<open>
  C1. When the executor cannot be created, \<open>getContainerDetails\<close> returns the base type
  \<open>Unknown\<close> with the compliant flag false, although the image-name heuristic matches
  the image reference \<open>registry/app-fips:2.0\<close>: that branch does not consult the image
  name, which the branch for a failed stream does.
\<close>

theorem getContainerDetails_executor_error_skips_heuristic:
  "getContainerDetails tbl (\<lambda>ns p c. ExecutorError)
     \<lparr>pod_Namespace = ''default'', pod_Name = ''app'',
      pod_Containers = [\<lparr>container_Name = ''main'', container_Image = ''registry/app-fips:2.0''\<rparr>]\<rparr>
     \<lparr>container_Name = ''main'', container_Image = ''registry/app-fips:2.0''\<rparr>
   = (''Unknown'', False) \<and>
   isFipsFromImageName tbl ''registry/app-fips:2.0'' \<and>
   getContainerDetails tbl (\<lambda>ns p c. StreamError)
     \<lparr>pod_Namespace = ''default'', pod_Name = ''app'',
      pod_Containers = [\<lparr>container_Name = ''main'', container_Image = ''registry/app-fips:2.0''\<rparr>]\<rparr>
     \<lparr>container_Name = ''main'', container_Image = ''registry/app-fips:2.0''\<rparr>
   = (''Unknown'', True)"
proof -
  have i: "isFipsFromImageName tbl ''registry/app-fips:2.0''" by code_simp
  show ?thesis by (simp add: getContainerDetails_def i)
qed

section \<open>Base type\<close>

text \<open>
  C10. \<open>parseOsRelease\<close> is total, and its result is one of \<open>Debian\<close>, \<open>Alpine\<close>,
  \<open>RHEL\<close>, \<open>Chainguard\<close>, \<open>Other\<close>, \<open>Unknown\<close>; in the second variant it is one of
  \<open>debian\<close>, \<open>ubuntu\<close>, \<open>alpine\<close>, \<open>centos\<close>, \<open>rhel\<close>, \<open>fedora\<close>, \<open>other\<close>,
  \<open>unknown\<close>. In both, the result is the result on the first line whose lowered form
  starts with an identity prefix (\<open>id=\<close> or \<open>name=\<close>; \<open>id=\<close> alone in the second
  variant), taken alone; once there is such a line, text added after the content does
  not change the result; and empty content gives \<open>Unknown\<close> (\<open>unknown\<close>).
\<close>

theorem parseOsRelease_tags_and_first_identity_line:
  "parseOsRelease tbl content \<in> set base_type_tags \<and>
   parseOsRelease_v2 tbl content \<in> set base_type_tags_v2 \<and>
   parseOsRelease tbl content =
     (case find (starts_identity tbl) (Split content newline) of
        None \<Rightarrow> ''Unknown'' | Some l \<Rightarrow> parseOsRelease tbl l) \<and>
   parseOsRelease_v2 tbl content =
     (case find (starts_identity_v2 tbl) (Split content newline) of
        None \<Rightarrow> ''unknown'' | Some l \<Rightarrow> parseOsRelease_v2 tbl l) \<and>
   (find (starts_identity tbl) (Split content newline) \<noteq> None \<longrightarrow>
      parseOsRelease tbl (content @ newline # later) = parseOsRelease tbl content) \<and>
   (find (starts_identity_v2 tbl) (Split content newline) \<noteq> None \<longrightarrow>
      parseOsRelease_v2 tbl (content @ newline # later) = parseOsRelease_v2 tbl content) \<and>
   parseOsRelease tbl [] = ''Unknown'' \<and>
   parseOsRelease_v2 tbl [] = ''unknown''"
proof -
  have e1: "parseOsRelease tbl [] = ''Unknown''" by code_simp
  have e2: "parseOsRelease_v2 tbl [] = ''unknown''" by code_simp
  have t1: "parseOsRelease tbl content \<in> set base_type_tags"
    unfolding parseOsRelease_def by (rule parseOsRelease_lines_tags)
  have t2: "parseOsRelease_v2 tbl content \<in> set base_type_tags_v2"
    unfolding parseOsRelease_v2_def by (rule parseOsRelease_lines_v2_tags)
  show ?thesis
    using e1 e2 t1 t2 parseOsRelease_find [of tbl content] parseOsRelease_v2_find [of tbl content]
      parseOsRelease_later_lines [of tbl content later]
      parseOsRelease_v2_later_lines [of tbl content later]
    by blast
qed

text \<open>The witness: a content whose second line is the identity line, and a third line
  added after it.\<close>

theorem parseOsRelease_tags_and_first_identity_line_witness:
  "find (starts_identity unchanged_table)
     (Split (''VERSION=12'' @ [newline] @ ''ID=debian'') newline) \<noteq> None \<and>
   find (starts_identity_v2 unchanged_table)
     (Split (''VERSION=12'' @ [newline] @ ''ID=debian'') newline) \<noteq> None \<and>
   parseOsRelease unchanged_table
       ((''VERSION=12'' @ [newline] @ ''ID=debian'') @ newline # ''ID=alpine'') =
     parseOsRelease unchanged_table (''VERSION=12'' @ [newline] @ ''ID=debian'') \<and>
   parseOsRelease_v2 unchanged_table
       ((''VERSION=12'' @ [newline] @ ''ID=debian'') @ newline # ''ID=alpine'') =
     parseOsRelease_v2 unchanged_table (''VERSION=12'' @ [newline] @ ''ID=debian'')"
proof -
  have h1: "find (starts_identity unchanged_table)
      (Split (''VERSION=12'' @ [newline] @ ''ID=debian'') newline) \<noteq> None"
    by code_simp
  have h2: "find (starts_identity_v2 unchanged_table)
      (Split (''VERSION=12'' @ [newline] @ ''ID=debian'') newline) \<noteq> None"
    by code_simp
  show ?thesis
    using h1 h2
      parseOsRelease_tags_and_first_identity_line
        [of unchanged_table "''VERSION=12'' @ [newline] @ ''ID=debian''" "''ID=alpine''"]
    by blast
qed

text \<open>
  The second variant returns \<open>ubuntu\<close> for the content \<open>ID=ubuntu\<close>, which is not among
  the lower-case forms of the six tags of the first variant.
\<close>

theorem parseOsRelease_v2_ubuntu_counterexample:
  "parseOsRelease_v2 unchanged_table ''ID=ubuntu'' = ''ubuntu'' \<and>
   parseOsRelease_v2 unchanged_table ''ID=ubuntu'' \<notin>
     set (map (ToLower unchanged_table) base_type_tags)"
  by code_simp

text \<open>
  C4. Where no code point has the equals sign as its lower case, as in the tables of
  Unicode: in \<open>discovery.go\<close>, for every content, the base type is found as the
  specification says. The lines are scanned in order, the first line whose key before
  \<open>=\<close> is \<open>id\<close> or \<open>name\<close> in its lower case is selected, the quotes around its value are
  stripped, and the value goes case-insensitively through the substring rules in order
  (Debian, Alpine, RHEL for centos, rhel or ubi, Chainguard for wolfi), the first match
  giving the tag and no match giving \<open>Other\<close>; without such a line the result is
  \<open>Unknown\<close>. In the second variant the identity field is \<open>id\<close> alone, and the value,
  lower-cased and without its quotes, is returned when it is one of debian, ubuntu,
  alpine, centos, rhel, fedora, and gives \<open>other\<close> otherwise; without an \<open>id\<close> line the
  result is \<open>unknown\<close>.
\<close>

theorem parseOsRelease_follows_specification:
  assumes "keeps_equals_sign tbl"
  shows "parseOsRelease tbl content = spec_base_type tbl content \<and>
         parseOsRelease_v2 tbl content = spec_base_type_v2 tbl content"
  using parseOsRelease_refines [OF assms, of content]
    parseOsRelease_v2_refines [OF assms, of content]
  by simp

theorem parseOsRelease_follows_specification_witness:
  "keeps_equals_sign unchanged_table \<and>
   parseOsRelease unchanged_table ubuntu_release = spec_base_type unchanged_table ubuntu_release \<and>
   parseOsRelease_v2 unchanged_table ubuntu_release =
     spec_base_type_v2 unchanged_table ubuntu_release"
proof -
  have k: "keeps_equals_sign unchanged_table"
    by (simp add: keeps_equals_sign_def unchanged_table_def)
  show ?thesis
    using k parseOsRelease_follows_specification [OF k, of ubuntu_release] by simp
qed

text \<open>
  The second variant does not look at a \<open>name\<close> line: for the content \<open>NAME=debian\<close> it
  returns \<open>unknown\<close>, where the rules of the specification give \<open>Debian\<close>.
\<close>

theorem parseOsRelease_v2_name_line_counterexample:
  "parseOsRelease_v2 unchanged_table ''NAME=debian'' = ''unknown'' \<and>
   spec_base_type unchanged_table ''NAME=debian'' = ''Debian''"
  by code_simp

text \<open>
  C8. For the release file \<open>ID="ubuntu"\<close>, \<open>NAME="Ubuntu"\<close> and the image reference
  \<open>myregistry/app:1.0\<close>: the content holds no compliance marker and the image name does
  not match; \<open>getContainerDetails\<close> returns the base type \<open>Other\<close> (no rule of its
  classifier names Ubuntu) with compliant false; the \<open>parseOsRelease\<close> of the second
  variant, which has no compliance flag, returns \<open>ubuntu\<close>.
\<close>

theorem ubuntu_scenario_classification:
  "getContainerDetails tbl (\<lambda>ns p c. Stdout ubuntu_release) pod
     \<lparr>container_Name = cname, container_Image = ''myregistry/app:1.0''\<rparr> = (''Other'', False) \<and>
   \<not> has_compliance_marker tbl ubuntu_release \<and>
   \<not> isFipsFromImageName tbl ''myregistry/app:1.0'' \<and>
   parseOsRelease_v2 tbl ubuntu_release = ''ubuntu''"
proof -
  have b: "parseOsRelease tbl ubuntu_release = ''Other''" by code_simp
  have f: "\<not> isFipsCompliant tbl ubuntu_release ''myregistry/app:1.0''" by code_simp
  have b2: "parseOsRelease_v2 tbl ubuntu_release = ''ubuntu''" by code_simp
  from f have "\<not> has_compliance_marker tbl ubuntu_release"
    "\<not> isFipsFromImageName tbl ''myregistry/app:1.0''"
    by (simp_all add: isFipsCompliant_iff_marker)
  then show ?thesis
    using b f b2 by (simp add: getContainerDetails_def)
qed

text \<open>The base type that \<open>discovery.go\<close> gives the scenario is \<open>Other\<close>, a tag that
  does not mention Ubuntu.\<close>

theorem ubuntu_scenario_counterexample:
  "parseOsRelease unchanged_table ubuntu_release = ''Other'' \<and>
   \<not> contains_ci unchanged_table (parseOsRelease unchanged_table ubuntu_release) ''ubuntu''"
  by code_simp

section \<open>Aggregation and publication\<close>

text \<open>
  C5. For a listing whose pods and whose containers are at most \<open>2^53\<close> in number (a
  bound that every listing held in memory meets, and below which the \<open>float64\<close> counts are
  exact), the snapshot that \<open>updateMetrics\<close> builds satisfies: the namespace counts sum to
  the number of pods listed; the count of a namespace is the number of pods in it, one
  increment for each pod and none for its containers; and the base-type counts and the
  image counts each sum to the number of containers of the listing.
\<close>

theorem aggregate_count_sums:
  assumes "length pods \<le> 2 ^ 53" and "total_containers pods \<le> 2 ^ 53"
  shows "sum_counts (namespaceMap (aggregate tbl cl pods)) = length pods \<and>
         (\<forall>ns. lookup0 (namespaceMap (aggregate tbl cl pods)) ns = pods_in_namespace pods ns) \<and>
         sum_counts (baseTypeMap (aggregate tbl cl pods)) = total_containers pods \<and>
         sum_counts (imageMap (aggregate tbl cl pods)) = total_containers pods"
proof -
  let ?ns = "map pod_Namespace pods"
  let ?img = "map (\<lambda>(pod, c). container_Image c) (all_containers pods)"
  let ?bt = "map (\<lambda>(pod, c). fst (getContainerDetails tbl cl pod c)) (all_containers pods)"
  have n: "namespaceMap (aggregate tbl cl pods) = fold (\<lambda>k m. incr m k) ?ns Map.empty"
    by (simp add: aggregate_def namespaceMap_pod_steps empty_snapshot_def)
  have i: "imageMap (aggregate tbl cl pods) = fold (\<lambda>k m. incr m k) ?img Map.empty"
    by (simp add: aggregate_def imageMap_pod_steps empty_snapshot_def)
  have b: "baseTypeMap (aggregate tbl cl pods) = fold (\<lambda>k m. incr m k) ?bt Map.empty"
    by (simp add: aggregate_def baseTypeMap_pod_steps empty_snapshot_def)
  have ln: "length ?ns \<le> 2 ^ 53" using assms(1) by simp
  have li: "length ?img \<le> 2 ^ 53" using assms(2) by (simp add: length_all_containers)
  have lb: "length ?bt \<le> 2 ^ 53" using assms(2) by (simp add: length_all_containers)
  have 1: "sum_counts (namespaceMap (aggregate tbl cl pods)) = length pods"
    unfolding n using sum_counts_from_empty [OF ln] by simp
  have 2: "lookup0 (namespaceMap (aggregate tbl cl pods)) ns = pods_in_namespace pods ns" for ns
  proof -
    have "lookup0 (namespaceMap (aggregate tbl cl pods)) ns = count_list ?ns ns"
      unfolding n by (rule lookup0_count_from_empty [OF ln])
    also have "\<dots> = length (filter (\<lambda>pod. pod_Namespace pod = ns) pods)"
      by (induction pods) simp_all
    finally show ?thesis by (simp add: pods_in_namespace_def)
  qed
  have 3: "sum_counts (baseTypeMap (aggregate tbl cl pods)) = total_containers pods"
    unfolding b using sum_counts_from_empty [OF lb] by (simp add: length_all_containers)
  have 4: "sum_counts (imageMap (aggregate tbl cl pods)) = total_containers pods"
    unfolding i using sum_counts_from_empty [OF li] by (simp add: length_all_containers)
  from 1 2 3 4 show ?thesis by simp
qed

theorem aggregate_count_sums_witness:
  "length [web_pod, dns_pod] \<le> 2 ^ 53 \<and>
   total_containers [web_pod, dns_pod] \<le> 2 ^ 53 \<and>
   sum_counts (namespaceMap (aggregate unchanged_table demo_cluster [web_pod, dns_pod])) = 2 \<and>
   lookup0 (namespaceMap (aggregate unchanged_table demo_cluster [web_pod, dns_pod])) ''default'' = 1 \<and>
   sum_counts (baseTypeMap (aggregate unchanged_table demo_cluster [web_pod, dns_pod])) = 3 \<and>
   sum_counts (imageMap (aggregate unchanged_table demo_cluster [web_pod, dns_pod])) = 3"
proof -
  have t: "total_containers [web_pod, dns_pod] = 3"
    by (simp add: total_containers_def web_pod_def dns_pod_def)
  have p: "pods_in_namespace [web_pod, dns_pod] ''default'' = 1"
    by (simp add: pods_in_namespace_def web_pod_def dns_pod_def)
  have h1: "length [web_pod, dns_pod] \<le> 2 ^ 53" by simp
  have h2: "total_containers [web_pod, dns_pod] \<le> 2 ^ 53" by (simp add: t)
  show ?thesis
    using h1 h2 aggregate_count_sums [OF h1 h2, of unchanged_table demo_cluster]
    by (simp add: t p)
qed

text \<open>
  C6. A cycle that lists the pods publishes exactly its own snapshot, whatever the gauges
  held before: the three vectors are reset first and no reset follows a set, every entry
  of the snapshot is then set, and so a namespace, an image reference or a base-type tag
  that the earlier cycle exported and the new snapshot lacks is not among the published
  labels when the cycle ends. The order in which the runtime hands out the entries of
  each table is any order over its keys.
\<close>

theorem updateMetrics_publishes_snapshot:
  assumes "valid_order (aggregate tbl cl pods) ord"
  shows "updateMetrics tbl (Inr pods) cl ord g = snapshot_gauges (aggregate tbl cl pods) \<and>
         (\<forall>l. l \<notin> dom (namespaceMap (aggregate tbl cl pods)) \<longrightarrow>
              l \<notin> dom (podsPerNamespace (updateMetrics tbl (Inr pods) cl ord g))) \<and>
         (\<forall>l. l \<notin> dom (imageMap (aggregate tbl cl pods)) \<longrightarrow>
              l \<notin> dom (containerImageCount (updateMetrics tbl (Inr pods) cl ord g))) \<and>
         (\<forall>l. l \<notin> dom (baseTypeMap (aggregate tbl cl pods)) \<longrightarrow>
              l \<notin> dom (containerBaseImageType (updateMetrics tbl (Inr pods) cl ord g))) \<and>
         (\<exists>sets. updateMetrics_ops tbl (Inr pods) cl ord =
              [ResetPodsPerNamespace, ResetContainerImageCount, ResetContainerBaseImageType,
               SetContainersFipsCompliant 0] @ sets \<and>
            ResetPodsPerNamespace \<notin> set sets \<and>
            ResetContainerImageCount \<notin> set sets \<and>
            ResetContainerBaseImageType \<notin> set sets)"
proof -
  have pub: "updateMetrics tbl (Inr pods) cl ord g = snapshot_gauges (aggregate tbl cl pods)"
    using assms by (rule updateMetrics_publishes)
  have ops: "\<exists>sets. updateMetrics_ops tbl (Inr pods) cl ord =
              [ResetPodsPerNamespace, ResetContainerImageCount, ResetContainerBaseImageType,
               SetContainersFipsCompliant 0] @ sets \<and>
            ResetPodsPerNamespace \<notin> set sets \<and>
            ResetContainerImageCount \<notin> set sets \<and>
            ResetContainerBaseImageType \<notin> set sets"
    by (auto simp add: updateMetrics_ops_def Let_def)
  show ?thesis
    unfolding pub using ops by (simp add: snapshot_gauges_def)
qed

theorem updateMetrics_publishes_snapshot_witness:
  "valid_order (aggregate unchanged_table demo_cluster [web_pod, dns_pod]) demo_order \<and>
   ''Alpine'' \<in> dom (containerBaseImageType stale_gauges) \<and>
   ''Alpine'' \<notin> dom (baseTypeMap (aggregate unchanged_table demo_cluster [web_pod, dns_pod])) \<and>
   ''Alpine'' \<notin> dom (containerBaseImageType
      (updateMetrics unchanged_table (Inr [web_pod, dns_pod]) demo_cluster demo_order
         stale_gauges)) \<and>
   updateMetrics unchanged_table (Inr [web_pod, dns_pod]) demo_cluster demo_order stale_gauges =
     snapshot_gauges (aggregate unchanged_table demo_cluster [web_pod, dns_pod])"
proof -
  have v: "valid_order (aggregate unchanged_table demo_cluster [web_pod, dns_pod]) demo_order"
    by (auto simp add: demo_aggregate valid_order_def range_of_def demo_order_def)
  have a: "''Alpine'' \<notin>
      dom (baseTypeMap (aggregate unchanged_table demo_cluster [web_pod, dns_pod]))"
    by (simp add: demo_aggregate)
  have s: "''Alpine'' \<in> dom (containerBaseImageType stale_gauges)"
    by (simp add: stale_gauges_def)
  show ?thesis
    using v a s updateMetrics_publishes_snapshot [OF v, of stale_gauges] by blast
qed

text \<open>
  C9. With the listing and the inspection outcomes fixed, a cycle publishes the same
  gauges from any earlier state and under any iteration order of the tables, and a second
  cycle run on the state the first one left publishes them again: the snapshot is built
  from empty tables in each cycle and nothing of the earlier cycle enters it.
\<close>

theorem updateMetrics_twice_same:
  assumes "valid_order (aggregate tbl cl pods) ord"
      and "valid_order (aggregate tbl cl pods) ord'"
  shows "updateMetrics tbl (Inr pods) cl ord' (updateMetrics tbl (Inr pods) cl ord g) =
           updateMetrics tbl (Inr pods) cl ord g \<and>
         updateMetrics tbl (Inr pods) cl ord g = updateMetrics tbl (Inr pods) cl ord' g'"
  by (simp add: updateMetrics_publishes [OF assms(1)] updateMetrics_publishes [OF assms(2)])

theorem updateMetrics_twice_same_witness:
  "valid_order (aggregate unchanged_table demo_cluster [web_pod, dns_pod]) demo_order \<and>
   valid_order (aggregate unchanged_table demo_cluster [web_pod, dns_pod]) demo_order' \<and>
   updateMetrics unchanged_table (Inr [web_pod, dns_pod]) demo_cluster demo_order'
     (updateMetrics unchanged_table (Inr [web_pod, dns_pod]) demo_cluster demo_order
        stale_gauges) =
     updateMetrics unchanged_table (Inr [web_pod, dns_pod]) demo_cluster demo_order stale_gauges"
proof -
  have v: "valid_order (aggregate unchanged_table demo_cluster [web_pod, dns_pod]) demo_order"
    by (auto simp add: demo_aggregate valid_order_def range_of_def demo_order_def)
  have v': "valid_order (aggregate unchanged_table demo_cluster [web_pod, dns_pod]) demo_order'"
    by (auto simp add: demo_aggregate valid_order_def range_of_def demo_order'_def)
  show ?thesis
    using v v' updateMetrics_twice_same [OF v v', of stale_gauges] by blast
qed

end
